theory Spec2Isabelle
  imports Main "HOL-Library.Sublist"
begin

section \<open>Strings and paths: the library functions the storage package calls\<close>

text \<open>
  Go strings and byte slices are sequences of bytes; both are modelled as \<open>string\<close>
  (a list of 8-bit characters). The service runs on Linux (see the Dockerfile), so
  \<open>filepath.Separator\<close> is the slash and there are no volume names.
\<close>

type_synonym bytes = string

text \<open>\<open>strings.HasPrefix\<close>: \<open>len(s) >= len(prefix) && s[:len(prefix)] == prefix\<close>.\<close>

definition HasPrefix :: "string \<Rightarrow> string \<Rightarrow> bool" where
  "HasPrefix s pre = (length pre \<le> length s \<and> take (length pre) s = pre)"

text \<open>\<open>strings.Contains\<close>: some suffix of \<open>s\<close> starts with \<open>substr\<close>.\<close>

fun Contains :: "string \<Rightarrow> string \<Rightarrow> bool" where
  "Contains [] substr = (substr = [])"
| "Contains (c # cs) substr = (HasPrefix (c # cs) substr \<or> Contains cs substr)"

text \<open>\<open>strings.TrimPrefix\<close>.\<close>

definition TrimPrefix :: "string \<Rightarrow> string \<Rightarrow> string" where
  "TrimPrefix s pre = (if HasPrefix s pre then drop (length pre) s else s)"

text \<open>
  \<open>filepath.Clean\<close> on Unix, byte by byte as the library has it. The output buffer
  is held with the last byte written first, so its length is the library's \<open>out.w\<close>;
  \<open>dotdot\<close> is the index in the buffer below which a \<open>..\<close> element must not
  back up (the leading separator, or a leading run of \<open>../..\<close>).

  \<open>back_to_sep\<close> is the loop that removes the last element after the first
  \<open>out.w--\<close>: \<open>cur\<close> is the byte at index \<open>out.w\<close>. \<open>clean_scan\<close> is the
  main loop over the rest of the path: a separator and a \<open>.\<close> element are skipped, a
  \<open>..\<close> element backs up, or is written when the path is not rooted and there is
  nothing to back up to, and any other element is copied behind a separator.
\<close>

fun back_to_sep :: "nat \<Rightarrow> char \<Rightarrow> string \<Rightarrow> string" where
  "back_to_sep dotdot cur [] = []"
| "back_to_sep dotdot cur (b # buf) =
     (if length (b # buf) > dotdot \<and> cur \<noteq> CHR ''/'' then back_to_sep dotdot b buf
      else b # buf)"

function clean_scan :: "bool \<Rightarrow> string \<Rightarrow> string \<Rightarrow> nat \<Rightarrow> string" where
  "clean_scan rooted [] buf dotdot = buf"
| "clean_scan rooted (c # rest) buf dotdot =
     (if c = CHR ''/'' then clean_scan rooted rest buf dotdot
      else if c = CHR ''.'' \<and> (rest = [] \<or> hd rest = CHR ''/'') then
        clean_scan rooted rest buf dotdot
      else if c = CHR ''.'' \<and> rest \<noteq> [] \<and> hd rest = CHR ''.''
              \<and> (tl rest = [] \<or> hd (tl rest) = CHR ''/'') then
        (if length buf > dotdot then
           clean_scan rooted (tl rest) (back_to_sep dotdot (hd buf) (tl buf)) dotdot
         else if \<not> rooted then
           clean_scan rooted (tl rest)
             (CHR ''.'' # CHR ''.'' # (if buf \<noteq> [] then CHR ''/'' # buf else buf))
             (length (CHR ''.'' # CHR ''.'' # (if buf \<noteq> [] then CHR ''/'' # buf else buf)))
         else clean_scan rooted (tl rest) buf dotdot)
      else
        clean_scan rooted (dropWhile (\<lambda>x. x \<noteq> CHR ''/'') rest)
          (rev (c # takeWhile (\<lambda>x. x \<noteq> CHR ''/'') rest)
             @ (if rooted \<and> length buf \<noteq> 1 \<or> \<not> rooted \<and> length buf \<noteq> 0
                then CHR ''/'' # buf else buf))
          dotdot)"
  by pat_completeness auto
termination
  by (relation "measure (\<lambda>(rooted, path, buf, dotdot). length path)")
     (auto simp add: less_Suc_eq_le length_dropWhile_le)

definition Clean :: "string \<Rightarrow> string" where
  "Clean path =
     (if path = [] then ''.''
      else
        let rooted = (hd path = CHR ''/'');
            out = (if rooted then clean_scan True (tl path) ''/'' 1
                   else clean_scan False path [] 0)
        in if out = [] then ''.'' else rev out)"

text \<open>
  The same scan told element by element (an element is a maximal run of bytes between
  separators): \<open>path_elements\<close> cuts the path at every separator, \<open>clean_elem\<close>
  is one turn of the loop on the elements written so far (the last written element first),
  \<open>join_elems\<close> writes the elements out with single separators between them. Lemma
  \<open>Clean_elements\<close> below shows that \<open>Clean\<close> computes exactly this.
\<close>

primrec path_elements :: "string \<Rightarrow> string list" where
  "path_elements [] = [[]]"
| "path_elements (c # cs) =
     (if c = CHR ''/'' then [] # path_elements cs
      else (case path_elements cs of [] \<Rightarrow> [[c]] | e # es \<Rightarrow> (c # e) # es))"

fun clean_elem :: "bool \<Rightarrow> string list \<Rightarrow> string \<Rightarrow> string list" where
  "clean_elem rooted out e =
     (if e = [] then out
      else if e = ''.'' then out
      else if e = ''..'' then
        (if out \<noteq> [] \<and> hd out \<noteq> ''..'' then tl out
         else if \<not> rooted then ''..'' # out
         else out)
      else e # out)"

fun join_elems :: "string list \<Rightarrow> string" where
  "join_elems [] = []"
| "join_elems [e] = e"
| "join_elems (e # e' # es) = e @ CHR ''/'' # join_elems (e' # es)"

text \<open>\<open>filepath.IsAbs\<close> on Unix.\<close>

definition IsAbs :: "string \<Rightarrow> bool" where
  "IsAbs path = HasPrefix path ''/''"

text \<open>
  \<open>filepath.Join\<close> of two elements: empty elements before the first non-empty one are
  dropped, the rest is joined with separators and cleaned; all empty gives the empty string.
\<close>

definition Join :: "string \<Rightarrow> string \<Rightarrow> string" where
  "Join a b =
     (if a \<noteq> [] then Clean (a @ CHR ''/'' # b)
      else if b \<noteq> [] then Clean b
      else [])"

text \<open>
  \<open>filepath.Ext\<close>: the suffix beginning at the final dot of the final element; empty
  if that element has no dot. The loop runs from the end of the path towards its start.
\<close>

fun ext_scan :: "string \<Rightarrow> string \<Rightarrow> string" where
  "ext_scan [] seen = []"
| "ext_scan (c # front) seen =
     (if c = CHR ''/'' then []
      else if c = CHR ''.'' then c # seen
      else ext_scan front (c # seen))"

definition Ext :: "string \<Rightarrow> string" where
  "Ext path = ext_scan (rev path) []"


section \<open>The file system as the storage package sees it\<close>

text \<open>
  An operating-system error carries its text and whether \<open>os.IsNotExist\<close> holds of it.
\<close>

datatype os_error = OsError (not_exist: bool) (os_text: string)

definition IsNotExist :: "os_error \<Rightarrow> bool" where
  "IsNotExist e = not_exist e"

text \<open>
  The calls made on the file system: \<open>os.Getwd\<close> (inside \<open>filepath.Abs\<close>),
  \<open>os.Open\<close> followed by \<open>io.ReadAll\<close> (the bytes read and the error that
  ended the read, if any), and \<open>os.Stat\<close> (its error, if any).
\<close>

record filesystem =
  Getwd :: "os_error + string"
  Open :: "string \<Rightarrow> os_error + (bytes \<times> os_error option)"
  Stat :: "string \<Rightarrow> os_error option"

text \<open>\<open>filepath.Abs\<close> on Unix.\<close>

definition Abs :: "filesystem \<Rightarrow> string \<Rightarrow> os_error + string" where
  "Abs fs path =
     (if IsAbs path then Inr (Clean path)
      else (case Getwd fs of
              Inl e \<Rightarrow> Inl e
            | Inr wd \<Rightarrow> Inr (Join wd path)))"


section \<open>internal/storage/storage.go\<close>

record LocalStorage =
  basePath :: string

definition NewLocalStorage :: "string \<Rightarrow> LocalStorage" where
  "NewLocalStorage base = \<lparr>basePath = base\<rparr>"

text \<open>The errors \<open>Get\<close> builds, one constructor for each \<open>fmt.Errorf\<close> of the source
  and one for the error \<open>io.ReadAll\<close> returns unwrapped.\<close>

datatype error =
    InvalidPathTraversal
  | InvalidPathOutside
  | ResolveBaseFailed os_error
  | ResolveFileFailed os_error
  | FileNotFound
  | OpenFailed os_error
  | ReadError os_error

fun Error_text :: "error \<Rightarrow> string" where
  "Error_text InvalidPathTraversal = ''invalid path: path traversal detected''"
| "Error_text InvalidPathOutside = ''invalid path: outside base directory''"
| "Error_text (ResolveBaseFailed e) = ''failed to resolve base path: '' @ os_text e"
| "Error_text (ResolveFileFailed e) = ''failed to resolve file path: '' @ os_text e"
| "Error_text FileNotFound = ''file not found''"
| "Error_text (OpenFailed e) = ''failed to open file: '' @ os_text e"
| "Error_text (ReadError e) = os_text e"

fun InvalidPath :: "error \<Rightarrow> bool" where
  "InvalidPath InvalidPathTraversal = True"
| "InvalidPath InvalidPathOutside = True"
| "InvalidPath _ = False"

text \<open>The errors of the path checks: the two above and the two failures of \<open>filepath.Abs\<close>.\<close>

fun path_check_error :: "error \<Rightarrow> bool" where
  "path_check_error InvalidPathTraversal = True"
| "path_check_error InvalidPathOutside = True"
| "path_check_error (ResolveBaseFailed e) = True"
| "path_check_error (ResolveFileFailed e) = True"
| "path_check_error _ = False"

text \<open>
  What a call of \<open>Get\<close> returns and does: the byte slice (\<open>None\<close> is Go's
  \<open>nil\<close>), the error (\<open>None\<close> is \<open>nil\<close>), and the paths it handed to
  \<open>os.Open\<close>, in order.
\<close>

record get_result =
  res_data :: "bytes option"
  res_err :: "error option"
  res_opened :: "string list"

definition rejected :: "error \<Rightarrow> get_result" where
  "rejected e = \<lparr>res_data = None, res_err = Some e, res_opened = []\<rparr>"

definition Get :: "filesystem \<Rightarrow> LocalStorage \<Rightarrow> string \<Rightarrow> get_result" where
  "Get fs s path =
     (let cleanPath = Clean path in
      if Contains cleanPath ''..'' then rejected InvalidPathTraversal
      else
        let fullPath = Join (basePath s) cleanPath in
        case Abs fs (basePath s) of
          Inl e \<Rightarrow> rejected (ResolveBaseFailed e)
        | Inr absBase \<Rightarrow>
            (case Abs fs fullPath of
               Inl e \<Rightarrow> rejected (ResolveFileFailed e)
             | Inr absPath \<Rightarrow>
                 if \<not> HasPrefix absPath absBase then rejected InvalidPathOutside
                 else
                   (case Open fs fullPath of
                      Inl e \<Rightarrow>
                        if IsNotExist e
                        then \<lparr>res_data = None, res_err = Some FileNotFound,
                              res_opened = [fullPath]\<rparr>
                        else \<lparr>res_data = None, res_err = Some (OpenFailed e),
                              res_opened = [fullPath]\<rparr>
                    | Inr (content, read_err) \<Rightarrow>
                        \<lparr>res_data = Some content,
                         res_err = map_option ReadError read_err,
                         res_opened = [fullPath]\<rparr>)))"

text \<open>
  What a call of \<open>Exists\<close> returns and does: its boolean and the paths it handed to
  \<open>os.Stat\<close>.
\<close>

record exists_result =
  ex_found :: bool
  ex_statted :: "string list"

definition Exists :: "filesystem \<Rightarrow> LocalStorage \<Rightarrow> string \<Rightarrow> exists_result" where
  "Exists fs s path =
     (let cleanPath = Clean path in
      if Contains cleanPath ''..'' then \<lparr>ex_found = False, ex_statted = []\<rparr>
      else
        let fullPath = Join (basePath s) cleanPath in
        case Abs fs (basePath s) of
          Inl e \<Rightarrow> \<lparr>ex_found = False, ex_statted = []\<rparr>
        | Inr absBase \<Rightarrow>
            (case Abs fs fullPath of
               Inl e \<Rightarrow> \<lparr>ex_found = False, ex_statted = []\<rparr>
             | Inr absPath \<Rightarrow>
                 if \<not> HasPrefix absPath absBase
                 then \<lparr>ex_found = False, ex_statted = []\<rparr>
                 else \<lparr>ex_found = (Stat fs fullPath = None), ex_statted = [fullPath]\<rparr>))"


section \<open>main.go: the asset handler\<close>

text \<open>
  A response as the client sees it. \<open>http.Error\<close> sets the two headers below, writes
  the status code and prints the message followed by a line feed.
\<close>

record response =
  status :: nat
  headers :: "(string \<times> string) list"
  body :: bytes

definition http_Error :: "string \<Rightarrow> nat \<Rightarrow> response" where
  "http_Error msg code =
     \<lparr>status = code,
      headers = [(''Content-Type'', ''text/plain; charset=utf-8''),
                 (''X-Content-Type-Options'', ''nosniff'')],
      body = msg @ [CHR 0x0A]\<rparr>"

text \<open>The two log calls of the handler, with their arguments.\<close>

datatype log_call =
    Warnf string
  | Debugf string string error

text \<open>
  A slice expression \<open>b[:n]\<close> panics when \<open>n\<close> is out of range; \<open>None\<close> is the
  panic. (The capacity is taken to be the length: the model panics wherever Go may.)
\<close>

definition slice_to :: "bytes \<Rightarrow> nat \<Rightarrow> bytes option" where
  "slice_to b n = (if n \<le> length b then Some (take n b) else None)"

text \<open>
  Lines 172 to 180 of the handler. \<open>TypeByExtension\<close> is \<open>mime.TypeByExtension\<close>,
  whose table belongs to the platform: it is a parameter, and returns the empty string for
  an extension it does not know. \<open>None\<close> is a run-time panic.
\<close>

definition detect_content_type :: "(string \<Rightarrow> string) \<Rightarrow> string \<Rightarrow> bytes \<Rightarrow> string option" where
  "detect_content_type TypeByExtension assetPath content =
     (let contentType = TypeByExtension (Ext assetPath);
          otherwise = (if contentType = [] then ''application/octet-stream'' else contentType)
      in if length content > 4 then
           (case slice_to content 4 of
              None \<Rightarrow> None
            | Some first4 \<Rightarrow>
                if first4 = ''<svg'' then Some ''image/svg+xml''
                else (case slice_to content 5 of
                        None \<Rightarrow> None
                      | Some first5 \<Rightarrow>
                          if first5 = ''<?xml'' then Some ''image/svg+xml''
                          else Some otherwise))
         else Some otherwise)"

text \<open>
  The handler registered for \<open>/assets/\<close>: the response (\<open>None\<close> if the handler
  panicked) and the log calls it made. \<open>base\<close> is \<open>assetsBasePath\<close>,
  \<open>storageLocation\<close> the value of the \<open>ImageStorageLocation\<close> flag, \<open>urlPath\<close>
  the request's \<open>r.URL.Path\<close>.
\<close>

record handler_result =
  resp :: "response option"
  logged :: "log_call list"

definition select_store :: "string \<Rightarrow> string \<Rightarrow> LocalStorage \<times> log_call list" where
  "select_store base storageLocation =
     (if storageLocation = ''bucket''
      then (NewLocalStorage base,
            [Warnf ''bucket storage not yet implemented, falling back to local''])
      else (NewLocalStorage base, []))"

definition asset_handler ::
  "(string \<Rightarrow> string) \<Rightarrow> filesystem \<Rightarrow> string \<Rightarrow> string \<Rightarrow> string \<Rightarrow> handler_result" where
  "asset_handler TypeByExtension fs base storageLocation urlPath =
     (let assetPath = TrimPrefix urlPath ''/assets/'';
          (store, warned) = select_store base storageLocation;
          r = Get fs store assetPath
      in case res_err r of
           Some e \<Rightarrow>
             \<lparr>resp = Some (http_Error ''not found'' 404),
              logged = warned @ [Debugf ''asset not found: %s (%v)'' assetPath e]\<rparr>
         | None \<Rightarrow>
             (let content = (case res_data r of None \<Rightarrow> [] | Some d \<Rightarrow> d) in
              case detect_content_type TypeByExtension assetPath content of
                None \<Rightarrow> \<lparr>resp = None, logged = warned\<rparr>
              | Some contentType \<Rightarrow>
                  \<lparr>resp = Some \<lparr>status = 200,
                                headers = [(''Content-Type'', contentType),
                                           (''Cache-Control'', ''public, max-age=31536000'')],
                                body = content\<rparr>,
                   logged = warned\<rparr>))"

text \<open>Lines 141 to 144 of \<open>main\<close>: the base path from \<open>ASSETS_BASE_PATH\<close>.\<close>

definition assetsBasePath :: "string \<Rightarrow> string" where
  "assetsBasePath env = (if env = [] then ''./assets'' else env)"


section \<open>Reference definitions and example inputs\<close>

text \<open>
  The content-type rule in the words of the specification: the first four bytes equal
  \<open><svg\<close> or the first five equal \<open><?xml\<close>, then SVG; otherwise the type of the
  extension; otherwise the generic binary type.
\<close>

definition spec_content_type :: "(string \<Rightarrow> string) \<Rightarrow> string \<Rightarrow> bytes \<Rightarrow> string" where
  "spec_content_type TypeByExtension assetPath content =
     (if take 4 content = ''<svg'' \<or> take 5 content = ''<?xml'' then ''image/svg+xml''
      else if TypeByExtension (Ext assetPath) \<noteq> [] then TypeByExtension (Ext assetPath)
      else ''application/octet-stream'')"

text \<open>
  Containment by path segments, for two cleaned absolute paths: the elements of the base
  are a prefix of the elements of the candidate.
\<close>

definition segments :: "string \<Rightarrow> string list" where
  "segments path = filter (\<lambda>e. e \<noteq> []) (path_elements path)"

definition lies_under :: "string \<Rightarrow> string \<Rightarrow> bool" where
  "lies_under candidate base = prefix (segments base) (segments candidate)"

text \<open>A table of MIME types that knows two extensions.\<close>

definition small_mime_table :: "string \<Rightarrow> string" where
  "small_mime_table ext =
     (if ext = ''.jpg'' then ''image/jpeg''
      else if ext = ''.png'' then ''image/png''
      else [])"

text \<open>
  A file system with working directory \<open>wd\<close> that holds one readable file at
  \<open>file\<close>, one file at \<open>locked\<close> that exists but cannot be opened, and nothing else.
\<close>

definition enoent :: os_error where
  "enoent = OsError True ''no such file or directory''"

definition eacces :: os_error where
  "eacces = OsError False ''permission denied''"

definition small_fs :: "string \<Rightarrow> string \<Rightarrow> bytes \<Rightarrow> string \<Rightarrow> filesystem" where
  "small_fs wd file content locked =
     \<lparr>Getwd = Inr wd,
      Open = (\<lambda>p. if p = file then Inr (content, None)
                   else if p = locked then Inl eacces
                   else Inl enoent),
      Stat = (\<lambda>p. if p = file \<or> p = locked then None else Some enoent)\<rparr>"

text \<open>The same, in a process whose working directory cannot be determined.\<close>

definition lost_wd_fs :: "string \<Rightarrow> bytes \<Rightarrow> filesystem" where
  "lost_wd_fs file content = (small_fs [] file content []) \<lparr>Getwd := Inl eacces\<rparr>"

text \<open>
  Vocabulary for reasoning about \<open>Clean\<close>: an element the scan can keep
  (\<open>elem_ok\<close>), an ordinary name (\<open>plain\<close>: kept and not \<open>..\<close>), and the
  last step of \<open>Clean\<close>, which writes the kept elements out.
\<close>

definition elem_ok :: "string \<Rightarrow> bool" where
  "elem_ok e = (e \<noteq> [] \<and> e \<noteq> ''.'' \<and> CHR ''/'' \<notin> set e)"

definition plain :: "string \<Rightarrow> bool" where
  "plain e = (elem_ok e \<and> e \<noteq> ''..'')"

definition render :: "bool \<Rightarrow> string list \<Rightarrow> string" where
  "render rooted out =
     (if rooted then CHR ''/'' # join_elems (rev out)
      else if out = [] then ''.''
      else join_elems (rev out))"

text \<open>
  The link between the two tellings of the scan: the buffer that holds the elements
  \<open>st\<close> (\<open>written\<close>), the index \<open>dotdot\<close> that goes with it (\<open>low\<close>), and
  the form the written elements always have (\<open>shape\<close>: ordinary names above a run of
  \<open>..\<close>, and no \<open>..\<close> at all in a rooted path).
\<close>

definition written :: "bool \<Rightarrow> string list \<Rightarrow> string" where
  "written rooted st = rev ((if rooted then ''/'' else []) @ join_elems (rev st))"

definition low :: "bool \<Rightarrow> string list \<Rightarrow> nat" where
  "low rooted st = (if rooted then 1 else length (join_elems (rev (dropWhile plain st))))"

definition shape :: "bool \<Rightarrow> string list \<Rightarrow> bool" where
  "shape rooted st =
     ((\<forall>x\<in>set st. elem_ok x) \<and> (\<forall>x\<in>set (dropWhile plain st). x = ''..'')
      \<and> (rooted \<longrightarrow> (\<forall>x\<in>set st. plain x)))"

text \<open>The elements a cleaned request path contributes when it has no \<open>..\<close> element.\<close>

definition kept :: "string \<Rightarrow> string list" where
  "kept c = rev (filter (\<lambda>e. e \<noteq> [] \<and> e \<noteq> ''.'') (path_elements c))"

text \<open>
  \<open>os.Getwd\<close> returns a rooted path name whenever it succeeds.
\<close>

definition wd_absolute :: "filesystem \<Rightarrow> bool" where
  "wd_absolute fs = (case Getwd fs of Inl e \<Rightarrow> True | Inr wd \<Rightarrow> IsAbs wd)"

text \<open>
  The base path has an absolute form: it is rooted itself, or the working directory is
  known (and rooted).
\<close>

definition resolvable :: "filesystem \<Rightarrow> string \<Rightarrow> bool" where
  "resolvable fs base =
     (IsAbs base \<or> (case Getwd fs of Inl e \<Rightarrow> False | Inr wd \<Rightarrow> IsAbs wd))"


section \<open>Facts about the string functions\<close>

lemma HasPrefix_prefix: "HasPrefix s pre = prefix pre s"
  unfolding HasPrefix_def prefix_def
  by (metis append_eq_conv_conj append_take_drop_id take_all_iff nat_le_linear)

lemma Contains_Cons: "Contains cs sub \<Longrightarrow> Contains (c # cs) sub"
  by simp

lemma path_elements_nonempty: "path_elements s \<noteq> []"
  by (induction s) (auto split: list.splits)

lemma hd_path_elements_prefix: "prefix (hd (path_elements s)) s"
  by (induction s) (auto split: list.splits)

lemma dotdot_element_Contains:
  "''..'' \<in> set (path_elements s) \<Longrightarrow> Contains s ''..''"
proof (induction s)
  case Nil
  then show ?case by simp
next
  case (Cons c cs)
  show ?case
  proof (cases "c = CHR ''/''")
    case True
    with Cons.prems have "''..'' \<in> set (path_elements cs)" by simp
    then show ?thesis using Cons.IH by simp
  next
    case False
    obtain e es where ees: "path_elements cs = e # es"
      using path_elements_nonempty [of cs] by (cases "path_elements cs") auto
    with False Cons.prems have "''..'' = c # e \<or> ''..'' \<in> set es" by auto
    then show ?thesis
    proof
      assume "''..'' = c # e"
      then have c: "c = CHR ''.''" and e: "e = ''.''" by auto
      have "prefix e cs" using hd_path_elements_prefix [of cs] ees by simp
      then have "prefix ''..'' (c # cs)" using c e by simp
      then have "HasPrefix (c # cs) ''..''" by (simp only: HasPrefix_prefix)
      then show ?thesis unfolding Contains.simps by blast
    next
      assume "''..'' \<in> set es"
      then have "''..'' \<in> set (path_elements cs)" using ees by simp
      then show ?thesis using Cons.IH by simp
    qed
  qed
qed

subsection \<open>Path elements and the scan by elements\<close>

declare clean_elem.simps [simp del]

lemma path_elements_append:
  "path_elements (a @ CHR ''/'' # b) = path_elements a @ path_elements b"
  using path_elements_nonempty [of "a @ CHR ''/'' # b"]
  by (induction a) (auto split: list.splits simp: path_elements_nonempty)

lemma path_elements_no_sep:
  "e \<in> set (path_elements s) \<Longrightarrow> CHR ''/'' \<notin> set e"
  by (induction s arbitrary: e) (auto split: list.splits if_splits)

lemma path_elements_single:
  "CHR ''/'' \<notin> set e \<Longrightarrow> path_elements e = [e]"
  by (induction e) auto

lemma path_elements_join:
  "xs \<noteq> [] \<Longrightarrow> \<forall>x\<in>set xs. CHR ''/'' \<notin> set x \<Longrightarrow> path_elements (join_elems xs) = xs"
proof (induction xs rule: join_elems.induct)
  case 1
  then show ?case by simp
next
  case (2 e)
  then show ?case by (simp add: path_elements_single)
next
  case (3 e e' es)
  then show ?case by (simp add: path_elements_append path_elements_single)
qed

lemma clean_elem_plain: "plain e \<Longrightarrow> clean_elem r out e = e # out"
  by (simp add: plain_def elem_ok_def clean_elem.simps)

lemma foldl_clean_plain:
  "\<forall>e\<in>set es. plain e \<Longrightarrow> foldl (clean_elem r) out es = rev es @ out"
  by (induction es arbitrary: out) (simp_all add: clean_elem_plain)

lemma foldl_clean_no_dotdot:
  "''..'' \<notin> set es \<Longrightarrow>
   foldl (clean_elem r) out es = rev (filter (\<lambda>e. e \<noteq> [] \<and> e \<noteq> ''.'') es) @ out"
  by (induction es arbitrary: out) (auto simp add: clean_elem.simps)

lemma clean_elem_ok:
  "\<forall>x\<in>set out. elem_ok x \<Longrightarrow> CHR ''/'' \<notin> set e \<Longrightarrow> \<forall>x\<in>set (clean_elem r out e). elem_ok x"
  by (cases out) (auto simp add: elem_ok_def clean_elem.simps)

lemma foldl_clean_ok:
  "\<forall>x\<in>set out. elem_ok x \<Longrightarrow> \<forall>e\<in>set es. CHR ''/'' \<notin> set e \<Longrightarrow>
   \<forall>x\<in>set (foldl (clean_elem r) out es). elem_ok x"
proof (induction es arbitrary: out)
  case Nil
  then show ?case by simp
next
  case (Cons e es)
  have "\<forall>x\<in>set (clean_elem r out e). elem_ok x"
    using Cons.prems by (intro clean_elem_ok) auto
  then show ?case using Cons.IH [of "clean_elem r out e"] Cons.prems
    by simp
qed

lemma clean_elem_rooted_plain:
  "\<forall>x\<in>set out. plain x \<Longrightarrow> CHR ''/'' \<notin> set e \<Longrightarrow> \<forall>x\<in>set (clean_elem True out e). plain x"
  by (cases out) (auto simp add: elem_ok_def plain_def clean_elem.simps)

lemma foldl_clean_rooted_plain:
  "\<forall>x\<in>set out. plain x \<Longrightarrow> \<forall>e\<in>set es. CHR ''/'' \<notin> set e \<Longrightarrow>
   \<forall>x\<in>set (foldl (clean_elem True) out es). plain x"
proof (induction es arbitrary: out)
  case Nil
  then show ?case by simp
next
  case (Cons e es)
  have "\<forall>x\<in>set (clean_elem True out e). plain x"
    using Cons.prems by (intro clean_elem_rooted_plain) auto
  then show ?case using Cons.IH [of "clean_elem True out e"] Cons.prems
    by simp
qed

text \<open>One step of the unrooted scan, replayed inside a rooted scan.\<close>

lemma replay_step:
  assumes "\<forall>x\<in>set R. x \<noteq> [] \<and> x \<noteq> ''.''"
  shows "foldl (clean_elem True) W (rev (clean_elem False R e))
       = clean_elem True (foldl (clean_elem True) W (rev R)) e"
proof (cases R)
  case Nil
  then show ?thesis by (simp add: clean_elem.simps)
next
  case (Cons t ts)
  then have t: "t \<noteq> []" "t \<noteq> ''.''" using assms by auto
  show ?thesis
  proof (cases "e = ''..''")
    case False
    then show ?thesis by (simp add: clean_elem.simps)
  next
    case True
    show ?thesis
    proof (cases "t = ''..''")
      case True
      with \<open>e = ''..''\<close> Cons show ?thesis by (simp add: clean_elem.simps)
    next
      case False
      with \<open>e = ''..''\<close> Cons t show ?thesis by (simp add: clean_elem.simps)
    qed
  qed
qed

lemma clean_elem_nonempty_nodot:
  "\<forall>x\<in>set R. x \<noteq> [] \<and> x \<noteq> ''.'' \<Longrightarrow> \<forall>x\<in>set (clean_elem r R e). x \<noteq> [] \<and> x \<noteq> ''.''"
  by (cases R) (auto simp add: clean_elem.simps)

lemma replay:
  "\<forall>x\<in>set R. x \<noteq> [] \<and> x \<noteq> ''.'' \<Longrightarrow>
   foldl (clean_elem True) W (rev (foldl (clean_elem False) R es))
     = foldl (clean_elem True) (foldl (clean_elem True) W (rev R)) es"
proof (induction es arbitrary: R)
  case Nil
  then show ?case by simp
next
  case (Cons e es)
  have inv: "\<forall>x\<in>set (clean_elem False R e). x \<noteq> [] \<and> x \<noteq> ''.''"
    using Cons.prems by (rule clean_elem_nonempty_nodot)
  have "foldl (clean_elem True) W (rev (foldl (clean_elem False) R (e # es)))
      = foldl (clean_elem True) W (rev (foldl (clean_elem False) (clean_elem False R e) es))"
    by simp
  also have "\<dots> = foldl (clean_elem True)
                    (foldl (clean_elem True) W (rev (clean_elem False R e))) es"
    using Cons.IH [OF inv] .
  also have "\<dots> = foldl (clean_elem True)
                    (clean_elem True (foldl (clean_elem True) W (rev R)) e) es"
    using replay_step [OF Cons.prems] by simp
  finally show ?case by simp
qed


subsection \<open>Writing the elements out\<close>

lemma IsAbs_iff: "IsAbs p \<longleftrightarrow> p \<noteq> [] \<and> hd p = CHR ''/''"
  by (cases p) (auto simp add: IsAbs_def HasPrefix_def)

lemma hd_join_elems: "e \<noteq> [] \<Longrightarrow> hd (join_elems (e # es)) = hd e"
  by (cases es) auto

lemma join_elems_nonempty: "e \<noteq> [] \<Longrightarrow> join_elems (e # es) \<noteq> []"
  by (cases es) auto

lemma render_nonempty: "\<forall>x\<in>set out. elem_ok x \<Longrightarrow> render r out \<noteq> []"
proof (cases "rev out")
  case Nil
  then show ?thesis by (simp add: render_def)
next
  case (Cons e es)
  assume "\<forall>x\<in>set out. elem_ok x"
  then have "elem_ok e" using Cons by (metis list.set_intros(1) set_rev)
  then have "join_elems (rev out) \<noteq> []"
    using Cons join_elems_nonempty [of e es] by (simp add: elem_ok_def)
  then show ?thesis by (simp add: render_def)
qed

lemma render_rooted_abs: "IsAbs (render True out)"
  by (simp add: IsAbs_iff render_def)

lemma render_unrooted_not_abs:
  assumes "\<forall>x\<in>set out. elem_ok x"
  shows "\<not> IsAbs (render False out)"
proof (cases "rev out")
  case Nil
  then show ?thesis by (simp add: render_def IsAbs_iff)
next
  case (Cons e es)
  then have e: "elem_ok e" using assms by (metis list.set_intros(1) set_rev)
  then have "hd (join_elems (rev out)) = hd e"
    using Cons hd_join_elems [of e es] by (simp add: elem_ok_def)
  moreover have "hd e \<noteq> CHR ''/''"
    using e by (cases e) (auto simp add: elem_ok_def)
  ultimately show ?thesis using Cons by (auto simp add: render_def IsAbs_iff)
qed

lemma scan_render_unrooted:
  assumes "\<forall>x\<in>set out. elem_ok x"
  shows "foldl (clean_elem r) W (path_elements (render False out))
       = foldl (clean_elem r) W (rev out)"
proof (cases "out = []")
  case True
  then show ?thesis by (simp add: render_def clean_elem.simps)
next
  case False
  have "path_elements (join_elems (rev out)) = rev out"
    using False assms by (intro path_elements_join) (auto simp add: elem_ok_def)
  then show ?thesis using False by (simp add: render_def)
qed

lemma path_elements_render_rooted:
  assumes "\<forall>x\<in>set out. plain x"
  shows "filter (\<lambda>e. e \<noteq> []) (path_elements (render True out)) = rev out"
proof (cases "out = []")
  case True
  then show ?thesis by (simp add: render_def)
next
  case False
  have "path_elements (join_elems (rev out)) = rev out"
    using False assms by (intro path_elements_join) (auto simp add: elem_ok_def plain_def)
  moreover have "filter (\<lambda>e. e \<noteq> []) (rev out) = rev out"
    using assms by (auto simp add: filter_id_conv plain_def elem_ok_def)
  ultimately show ?thesis by (simp add: render_def)
qed

lemma prefix_join_elems: "prefix (join_elems xs) (join_elems (xs @ ys))"
proof (induction xs rule: join_elems.induct)
  case 1
  then show ?case by simp
next
  case (2 e)
  then show ?case by (cases ys) simp_all
next
  case (3 e e' es)
  then show ?case by simp
qed

subsection \<open>The byte-wise scan\<close>

text \<open>The byte-wise scan and the scan by elements agree.\<close>

lemma path_elements_split:
  "path_elements p =
     takeWhile (\<lambda>x. x \<noteq> CHR ''/'') p
       # (case dropWhile (\<lambda>x. x \<noteq> CHR ''/'') p of [] \<Rightarrow> [] | x # r \<Rightarrow> path_elements r)"
  by (induction p) (auto split: list.splits)

lemma clean_elem_empty [simp]: "clean_elem r st [] = st"
  by (simp add: clean_elem.simps)

lemma clean_elem_dot [simp]: "clean_elem r st ''.'' = st"
  by (simp add: clean_elem.simps)

lemma path_elements_name:
  assumes "c \<noteq> CHR ''/''"
  shows "path_elements (c # rest) =
     (c # takeWhile (\<lambda>x. x \<noteq> CHR ''/'') rest)
       # (case dropWhile (\<lambda>x. x \<noteq> CHR ''/'') rest of [] \<Rightarrow> [] | x # r \<Rightarrow> path_elements r)"
proof -
  have "takeWhile (\<lambda>x. x \<noteq> CHR ''/'') (c # rest) = c # takeWhile (\<lambda>x. x \<noteq> CHR ''/'') rest"
    and "dropWhile (\<lambda>x. x \<noteq> CHR ''/'') (c # rest) = dropWhile (\<lambda>x. x \<noteq> CHR ''/'') rest"
    using assms by simp_all
  then show ?thesis
    using path_elements_split [of "c # rest"] by (simp only:)
qed

lemma scan_element:
  assumes "c \<noteq> CHR ''/''"
  shows "foldl (clean_elem r) st (path_elements (c # rest))
       = foldl (clean_elem r) (clean_elem r st (c # takeWhile (\<lambda>x. x \<noteq> CHR ''/'') rest))
           (path_elements (dropWhile (\<lambda>x. x \<noteq> CHR ''/'') rest))"
proof (cases "dropWhile (\<lambda>x. x \<noteq> CHR ''/'') rest")
  case Nil
  have pe: "path_elements (c # rest) = [c # takeWhile (\<lambda>x. x \<noteq> CHR ''/'') rest]"
    using path_elements_name [OF assms, of rest] by (simp only: Nil list.case)
  show ?thesis unfolding pe Nil by simp
next
  case (Cons x r')
  then have "x = CHR ''/''"
    using hd_dropWhile [of "\<lambda>x. x \<noteq> CHR ''/''" rest] by auto
  then have d: "path_elements (x # r') = [] # path_elements r'"
    by simp
  have pe: "path_elements (c # rest)
      = (c # takeWhile (\<lambda>x. x \<noteq> CHR ''/'') rest) # path_elements r'"
    using path_elements_name [OF assms, of rest] by (simp only: Cons list.case)
  show ?thesis unfolding pe Cons d by simp
qed

lemma join_elems_snoc:
  "join_elems (xs @ [e]) = (if xs = [] then e else join_elems xs @ CHR ''/'' # e)"
  by (induction xs rule: join_elems.induct) auto

lemma written_Cons:
  "written r (e # st) = rev e @ (if st = [] then written r st else CHR ''/'' # written r st)"
  by (simp add: written_def join_elems_snoc)

lemma join_elems_empty_iff:
  "\<forall>x\<in>set xs. x \<noteq> [] \<Longrightarrow> join_elems xs = [] \<longleftrightarrow> xs = []"
  by (induction xs rule: join_elems.induct) auto

lemma written_empty_iff:
  assumes "\<forall>x\<in>set st. elem_ok x"
  shows "length (written r st) = (if r then 1 else 0) \<longleftrightarrow> st = []"
proof -
  have "join_elems (rev st) = [] \<longleftrightarrow> rev st = []"
    using assms by (intro join_elems_empty_iff) (auto simp add: elem_ok_def)
  then show ?thesis by (auto simp add: written_def)
qed

lemma low_le_written: "low r st \<le> length (written r st)"
proof (cases r)
  case True
  then show ?thesis by (simp add: low_def written_def)
next
  case False
  have "rev st = rev (dropWhile plain st) @ rev (takeWhile plain st)"
    by (metis rev_append takeWhile_dropWhile_id)
  then have "prefix (join_elems (rev (dropWhile plain st))) (join_elems (rev st))"
    using prefix_join_elems [of "rev (dropWhile plain st)" "rev (takeWhile plain st)"] by simp
  then show ?thesis
    using False by (simp add: low_def written_def prefix_length_le)
qed

lemma back_to_sep_stop:
  "\<forall>x\<in>set u. x \<noteq> CHR ''/'' \<Longrightarrow> cur \<noteq> CHR ''/'' \<Longrightarrow> dd \<le> length buf \<Longrightarrow>
   back_to_sep dd cur (u @ CHR ''/'' # buf) = buf"
proof (induction u arbitrary: cur)
  case Nil
  then show ?case by (cases buf) auto
next
  case (Cons x u)
  then show ?case by simp
qed

lemma back_to_sep_floor:
  "\<forall>x\<in>set u. x \<noteq> CHR ''/'' \<Longrightarrow> cur \<noteq> CHR ''/'' \<Longrightarrow> dd = length buf \<Longrightarrow>
   back_to_sep dd cur (u @ buf) = buf"
proof (induction u arbitrary: cur)
  case Nil
  then show ?case by (cases buf) auto
next
  case (Cons x u)
  then show ?case by simp
qed

lemma low_plain_Cons: "plain t \<Longrightarrow> low r (t # ts) = low r ts"
  by (simp add: low_def)

lemma shape_tl: "shape r (t # ts) \<Longrightarrow> plain t \<Longrightarrow> shape r ts"
  by (simp add: shape_def)

lemma plain_elem_ok: "plain e \<Longrightarrow> elem_ok e"
  by (simp add: plain_def)

lemma shape_plain_Cons:
  assumes "shape r st" and "plain e"
  shows "shape r (e # st)"
proof -
  have "dropWhile plain (e # st) = dropWhile plain st"
    using assms(2) by simp
  then show ?thesis
    using assms plain_elem_ok [OF assms(2)] unfolding shape_def by simp
qed

lemma written_nil: "written r [] = (if r then ''/'' else [])"
  by (simp add: written_def)

lemma low_nil: "low r [] = (if r then 1 else 0)"
  by (simp add: low_def)

lemma backtrack:
  assumes "shape r (t # ts)" and "plain t"
  shows "back_to_sep (low r (t # ts)) (hd (written r (t # ts))) (tl (written r (t # ts)))
       = written r ts"
proof -
  have tne: "t \<noteq> []" and nosep: "\<forall>x\<in>set t. x \<noteq> CHR ''/''"
    using assms(2) by (auto simp add: plain_def elem_ok_def)
  obtain l u where rt: "rev t = l # u"
    using tne by (cases "rev t") auto
  have "set (l # u) = set t"
    using rt by (metis set_rev)
  then have l: "l \<noteq> CHR ''/''" and u: "\<forall>x\<in>set u. x \<noteq> CHR ''/''"
    using nosep by auto
  have w: "written r (t # ts)
      = l # (u @ (if ts = [] then written r ts else CHR ''/'' # written r ts))"
    by (simp add: written_Cons rt)
  have lw: "low r (t # ts) = low r ts"
    using assms(2) by (rule low_plain_Cons)
  show ?thesis
  proof (cases "ts = []")
    case True
    have "low r [] = length (written r [])"
      by (simp add: written_nil low_nil)
    then have "back_to_sep (low r []) l (u @ written r []) = written r []"
      using back_to_sep_floor [OF u l] by blast
    then show ?thesis
      unfolding w lw using True by simp
  next
    case False
    have "back_to_sep (low r ts) l (u @ CHR ''/'' # written r ts) = written r ts"
      using back_to_sep_stop [OF u l low_le_written [of r ts]] .
    then show ?thesis
      unfolding w lw using False by simp
  qed
qed

lemma not_plain_dotdot: "\<not> plain ''..''"
  by (simp add: plain_def)

lemma can_backtrack_iff:
  assumes "shape r st"
  shows "length (written r st) > low r st \<longleftrightarrow> st \<noteq> [] \<and> hd st \<noteq> ''..''"
proof (cases st)
  case Nil
  then show ?thesis by (simp add: written_nil low_nil)
next
  case (Cons t ts)
  show ?thesis
  proof (cases "t = ''..''")
    case True
    have np: "\<not> plain t" unfolding True by (rule not_plain_dotdot)
    have "t \<in> set st" using Cons by simp
    then have nr: "\<not> r" using assms np unfolding shape_def by blast
    have "dropWhile plain st = st" unfolding Cons using np by simp
    then have "low r st = length (written r st)"
      using nr by (simp add: low_def written_def)
    moreover have "hd st = ''..''" unfolding Cons using True by simp
    ultimately show ?thesis by simp
  next
    case False
    have "elem_ok t" using assms unfolding shape_def Cons by simp
    then have p: "plain t" using False by (simp add: plain_def)
    have "t \<noteq> []" using \<open>elem_ok t\<close> by (simp add: elem_ok_def)
    then have "length (written r (t # ts)) > length (written r ts)"
      by (simp add: written_Cons)
    then have "length (written r st) > low r st"
      unfolding Cons using low_le_written [of r ts] low_plain_Cons [OF p, of r ts] by simp
    moreover have "hd st \<noteq> ''..''" unfolding Cons using False by simp
    ultimately show ?thesis unfolding Cons by simp
  qed
qed

lemma push_dotdot:
  assumes "shape False st" and "st = [] \<or> hd st = ''..''"
  shows "written False (''..'' # st)
           = CHR ''.'' # CHR ''.'' # (if written False st \<noteq> [] then CHR ''/'' # written False st
                                     else written False st)"
    and "low False (''..'' # st) = length (written False (''..'' # st))"
    and "shape False (''..'' # st)"
proof -
  have e: "written False st = [] \<longleftrightarrow> st = []"
    using written_empty_iff [of st False] assms(1) by (simp add: shape_def)
  show "written False (''..'' # st)
           = CHR ''.'' # CHR ''.'' # (if written False st \<noteq> [] then CHR ''/'' # written False st
                                     else written False st)"
    using e by (simp add: written_Cons)
  have np: "\<not> plain ''..''" by (rule not_plain_dotdot)
  show "low False (''..'' # st) = length (written False (''..'' # st))"
    using np by (simp add: low_def written_def)
  have "dropWhile plain st = st"
    using assms(2) np by (cases st) auto
  then have "\<forall>x\<in>set st. x = ''..''"
    using assms(1) by (simp add: shape_def)
  then show "shape False (''..'' # st)"
    using assms(1) np by (simp add: shape_def elem_ok_def)
qed

lemma element_plain:
  assumes "c \<noteq> CHR ''/''"
    and "\<not> (c = CHR ''.'' \<and> (rest = [] \<or> hd rest = CHR ''/''))"
    and "\<not> (c = CHR ''.'' \<and> rest \<noteq> [] \<and> hd rest = CHR ''.''
            \<and> (tl rest = [] \<or> hd (tl rest) = CHR ''/''))"
  shows "plain (c # takeWhile (\<lambda>x. x \<noteq> CHR ''/'') rest)"
proof -
  have "CHR ''/'' \<notin> set (c # takeWhile (\<lambda>x. x \<noteq> CHR ''/'') rest)"
    using assms(1) by (auto dest: set_takeWhileD)
  moreover have "c # takeWhile (\<lambda>x. x \<noteq> CHR ''/'') rest \<noteq> ''.''"
    using assms(2) by (cases rest) auto
  moreover have "c # takeWhile (\<lambda>x. x \<noteq> CHR ''/'') rest \<noteq> ''..''"
  proof (cases rest)
    case Nil
    then show ?thesis by simp
  next
    case (Cons x r')
    then show ?thesis using assms(3) by (cases r') (auto split: if_splits)
  qed
  ultimately show ?thesis by (simp add: plain_def elem_ok_def)
qed

lemma at_element_end:
  "rest = [] \<or> hd rest = CHR ''/'' \<Longrightarrow>
   takeWhile (\<lambda>x. x \<noteq> CHR ''/'') rest = [] \<and> dropWhile (\<lambda>x. x \<noteq> CHR ''/'') rest = rest"
  by (cases rest) auto

lemma clean_scan_sep:
  "clean_scan r (CHR ''/'' # rest) buf dd = clean_scan r rest buf dd"
  by simp

lemma clean_scan_dot:
  "rest = [] \<or> hd rest = CHR ''/'' \<Longrightarrow>
   clean_scan r (CHR ''.'' # rest) buf dd = clean_scan r rest buf dd"
  by simp

lemma clean_scan_dotdot:
  assumes "rest = [] \<or> hd rest = CHR ''/''"
  shows "clean_scan r (CHR ''.'' # CHR ''.'' # rest) buf dd =
     (if length buf > dd then clean_scan r rest (back_to_sep dd (hd buf) (tl buf)) dd
      else if \<not> r then
        clean_scan r rest
          (CHR ''.'' # CHR ''.'' # (if buf \<noteq> [] then CHR ''/'' # buf else buf))
          (length (CHR ''.'' # CHR ''.'' # (if buf \<noteq> [] then CHR ''/'' # buf else buf)))
      else clean_scan r rest buf dd)"
  using assms by (subst clean_scan.simps) simp

lemma clean_scan_name:
  assumes "c \<noteq> CHR ''/''"
    and "\<not> (c = CHR ''.'' \<and> (rest = [] \<or> hd rest = CHR ''/''))"
    and "\<not> (c = CHR ''.'' \<and> rest \<noteq> [] \<and> hd rest = CHR ''.''
            \<and> (tl rest = [] \<or> hd (tl rest) = CHR ''/''))"
  shows "clean_scan r (c # rest) buf dd =
     clean_scan r (dropWhile (\<lambda>x. x \<noteq> CHR ''/'') rest)
       (rev (c # takeWhile (\<lambda>x. x \<noteq> CHR ''/'') rest)
          @ (if r \<and> length buf \<noteq> 1 \<or> \<not> r \<and> length buf \<noteq> 0
             then CHR ''/'' # buf else buf))
       dd"
  using assms by (subst clean_scan.simps) (simp only: if_False)

declare clean_scan.simps [simp del]

lemma clean_scan_elements:
  "shape r st \<Longrightarrow>
   clean_scan r p (written r st) (low r st)
     = written r (foldl (clean_elem r) st (path_elements p))"
proof (induction p arbitrary: st rule: length_induct)
  case (1 p)
  note IH = "1.IH" [rule_format]
  note sh = "1.prems"
  show ?case
  proof (cases p)
    case Nil
    then show ?thesis by (simp add: clean_scan.simps(1))
  next
    case (Cons c rest)
    consider (sep) "c = CHR ''/''"
      | (dot) "c = CHR ''.''" "rest = [] \<or> hd rest = CHR ''/''"
      | (dotdot) rest' where "c = CHR ''.''" "rest = CHR ''.'' # rest'"
          "rest' = [] \<or> hd rest' = CHR ''/''"
      | (name) "c \<noteq> CHR ''/''" "\<not> (c = CHR ''.'' \<and> (rest = [] \<or> hd rest = CHR ''/''))"
          "\<not> (c = CHR ''.'' \<and> rest \<noteq> [] \<and> hd rest = CHR ''.''
            \<and> (tl rest = [] \<or> hd (tl rest) = CHR ''/''))"
    proof (cases "c = CHR ''/''")
      case True
      then show ?thesis by (rule sep)
    next
      case ns: False
      show ?thesis
      proof (cases "c = CHR ''.'' \<and> (rest = [] \<or> hd rest = CHR ''/'')")
        case True
        then show ?thesis using dot by blast
      next
        case nd: False
        show ?thesis
        proof (cases "c = CHR ''.'' \<and> rest \<noteq> [] \<and> hd rest = CHR ''.''
            \<and> (tl rest = [] \<or> hd (tl rest) = CHR ''/'')")
          case True
          then have "rest = CHR ''.'' # tl rest" by (cases rest) auto
          then show ?thesis using True dotdot [of "tl rest"] by blast
        next
          case False
          then show ?thesis using ns nd name by blast
        qed
      qed
    qed
    then show ?thesis
    proof cases
      case sep
      have "clean_scan r p (written r st) (low r st) = clean_scan r rest (written r st) (low r st)"
        unfolding Cons sep by (rule clean_scan_sep)
      also have "\<dots> = written r (foldl (clean_elem r) st (path_elements rest))"
        using IH [of rest st] sh Cons by simp
      also have "\<dots> = written r (foldl (clean_elem r) st (path_elements p))"
        unfolding Cons sep by simp
      finally show ?thesis .
    next
      case dot
      have ne: "c \<noteq> CHR ''/''" using dot(1) by simp
      have el: "foldl (clean_elem r) st (path_elements p)
          = foldl (clean_elem r) st (path_elements rest)"
        unfolding Cons using scan_element [OF ne, of r st rest] at_element_end [OF dot(2)] dot(1)
        by simp
      have "clean_scan r p (written r st) (low r st) = clean_scan r rest (written r st) (low r st)"
        unfolding Cons dot(1) using dot(2) by (rule clean_scan_dot)
      also have "\<dots> = written r (foldl (clean_elem r) st (path_elements rest))"
        using IH [of rest st] sh Cons by simp
      finally show ?thesis unfolding el .
    next
      case (dotdot rest')
      have ne: "c \<noteq> CHR ''/''" using dotdot(1) by simp
      have tw: "takeWhile (\<lambda>x. x \<noteq> CHR ''/'') rest = ''.''"
        and dw: "dropWhile (\<lambda>x. x \<noteq> CHR ''/'') rest = rest'"
        unfolding dotdot(2) using at_element_end [OF dotdot(3)] by simp_all
      have el: "foldl (clean_elem r) st (path_elements p)
          = foldl (clean_elem r) (clean_elem r st ''..'') (path_elements rest')"
        unfolding Cons using scan_element [OF ne, of r st rest] tw dw dotdot(1) by simp
      have len: "length rest' < length p" unfolding Cons dotdot(2) by simp
      have unf: "clean_scan r p (written r st) (low r st) =
         (if length (written r st) > low r st
          then clean_scan r rest'
                 (back_to_sep (low r st) (hd (written r st)) (tl (written r st))) (low r st)
          else if \<not> r then
            clean_scan r rest'
              (CHR ''.'' # CHR ''.'' #
                (if written r st \<noteq> [] then CHR ''/'' # written r st else written r st))
              (length (CHR ''.'' # CHR ''.'' #
                (if written r st \<noteq> [] then CHR ''/'' # written r st else written r st)))
          else clean_scan r rest' (written r st) (low r st))"
        unfolding Cons dotdot(1) dotdot(2) using dotdot(3) by (rule clean_scan_dotdot)
      show ?thesis
      proof (cases "st \<noteq> [] \<and> hd st \<noteq> ''..''")
        case True
        then obtain t ts where st: "st = t # ts" and tn: "t \<noteq> ''..''" by (cases st) auto
        have "elem_ok t" using sh unfolding shape_def st by simp
        then have pt: "plain t" using tn by (simp add: plain_def)
        have ce: "clean_elem r st ''..'' = ts" unfolding st using tn by (simp add: clean_elem.simps)
        have gt: "length (written r st) > low r st"
          using can_backtrack_iff [OF sh] True by blast
        have bt: "back_to_sep (low r st) (hd (written r st)) (tl (written r st)) = written r ts"
          unfolding st using sh pt unfolding st by (rule backtrack)
        have lw: "low r st = low r ts" unfolding st using pt by (rule low_plain_Cons)
        have sts: "shape r ts" using sh pt unfolding st by (rule shape_tl)
        have "clean_scan r p (written r st) (low r st)
            = clean_scan r rest' (written r ts) (low r ts)"
          unfolding unf using gt bt lw by simp
        also have "\<dots> = written r (foldl (clean_elem r) ts (path_elements rest'))"
          using IH [OF len sts] .
        finally show ?thesis unfolding el ce .
      next
        case False
        have ngt: "\<not> length (written r st) > low r st"
          using can_backtrack_iff [OF sh] False by blast
        show ?thesis
        proof (cases r)
          case True
          have "st = []"
          proof (rule ccontr)
            assume "st \<noteq> []"
            then obtain t ts where st: "st = t # ts" by (cases st) auto
            then have "plain t" using sh True unfolding shape_def by simp
            then have "t \<noteq> ''..''" by (simp add: plain_def)
            then show False using False st by simp
          qed
          then have ce: "clean_elem r st ''..'' = st"
            using True by (simp add: clean_elem.simps)
          have "clean_scan r p (written r st) (low r st)
              = clean_scan r rest' (written r st) (low r st)"
            unfolding unf using ngt True by simp
          also have "\<dots> = written r (foldl (clean_elem r) st (path_elements rest'))"
            using IH [OF len sh] .
          finally show ?thesis unfolding el ce .
        next
          case nr: False
          have hd: "st = [] \<or> hd st = ''..''" using False by blast
          have shF: "shape False st" using sh nr by simp
          have ce: "clean_elem r st ''..'' = ''..'' # st"
            using hd nr by (auto simp add: clean_elem.simps)
          have w: "written r (''..'' # st)
                = CHR ''.'' # CHR ''.'' #
                    (if written r st \<noteq> [] then CHR ''/'' # written r st else written r st)"
            using push_dotdot(1) [OF shF hd] nr by simp
          have l: "low r (''..'' # st) = length (written r (''..'' # st))"
            using push_dotdot(2) [OF shF hd] nr by simp
          have s': "shape r (''..'' # st)"
            using push_dotdot(3) [OF shF hd] nr by simp
          have "clean_scan r p (written r st) (low r st)
              = clean_scan r rest' (written r (''..'' # st)) (low r (''..'' # st))"
            unfolding unf l unfolding w using ngt nr by simp
          also have "\<dots> = written r (foldl (clean_elem r) (''..'' # st) (path_elements rest'))"
            using IH [OF len s'] .
          finally show ?thesis unfolding el ce .
        qed
      qed
    next
      case name
      let ?e = "c # takeWhile (\<lambda>x. x \<noteq> CHR ''/'') rest"
      let ?d = "dropWhile (\<lambda>x. x \<noteq> CHR ''/'') rest"
      have pe: "plain ?e" using name by (rule element_plain)
      have el: "foldl (clean_elem r) st (path_elements p)
          = foldl (clean_elem r) (?e # st) (path_elements ?d)"
        unfolding Cons using scan_element [OF name(1), of r st rest] clean_elem_plain [OF pe]
        by simp
      have len: "length ?d < length p"
        unfolding Cons using length_dropWhile_le [of "\<lambda>x. x \<noteq> CHR ''/''" rest] by simp
      have "\<forall>x\<in>set st. elem_ok x" using sh unfolding shape_def by blast
      then have "length (written r st) = (if r then 1 else 0) \<longleftrightarrow> st = []"
        by (rule written_empty_iff)
      then have em: "(r \<and> length (written r st) \<noteq> 1 \<or> \<not> r \<and> length (written r st) \<noteq> 0)
                  \<longleftrightarrow> st \<noteq> []"
        by (cases r) simp_all
      have w: "written r (?e # st)
          = rev ?e @ (if r \<and> length (written r st) \<noteq> 1 \<or> \<not> r \<and> length (written r st) \<noteq> 0
                      then CHR ''/'' # written r st else written r st)"
        unfolding em written_Cons by simp
      have lw: "low r (?e # st) = low r st" using pe by (rule low_plain_Cons)
      have s': "shape r (?e # st)" using sh pe by (rule shape_plain_Cons)
      have "clean_scan r p (written r st) (low r st)
          = clean_scan r ?d (written r (?e # st)) (low r (?e # st))"
        unfolding Cons w lw using name by (rule clean_scan_name)
      also have "\<dots> = written r (foldl (clean_elem r) (?e # st) (path_elements ?d))"
        using IH [OF len s'] .
      finally show ?thesis unfolding el .
    qed
  qed
qed

lemma Clean_elements:
  "Clean path =
     (if path = [] then ''.''
      else
        let rooted = (hd path = CHR ''/'');
            out = foldl (clean_elem rooted) [] (path_elements path)
        in if rooted then CHR ''/'' # join_elems (rev out)
           else if out = [] then ''.''
           else join_elems (rev out))"
proof (cases "path = []")
  case True
  then show ?thesis by (simp add: Clean_def)
next
  case False
  then obtain c rest where p: "path = c # rest" by (cases path) auto
  have sh: "shape r []" for r by (simp add: shape_def)
  show ?thesis
  proof (cases "c = CHR ''/''")
    case True
    have "clean_scan True rest ''/'' 1
        = written True (foldl (clean_elem True) [] (path_elements rest))"
      using clean_scan_elements [OF sh, of True rest] by (simp add: written_nil low_nil)
    then show ?thesis
      using p True by (simp add: Clean_def written_def Let_def)
  next
    case nr: False
    let ?st = "foldl (clean_elem False) [] (path_elements path)"
    have w: "clean_scan False path [] 0 = written False ?st"
      using clean_scan_elements [OF sh, of False path] by (simp add: written_nil low_nil)
    have ok: "\<forall>x\<in>set ?st. elem_ok x"
      by (intro foldl_clean_ok) (auto dest: path_elements_no_sep)
    have "written False ?st = [] \<longleftrightarrow> ?st = []"
      using written_empty_iff [OF ok, of False] by simp
    then show ?thesis
      using p nr w by (simp add: Clean_def written_def Let_def)
  qed
qed

subsection \<open>Cleaning a joined path\<close>

lemma Clean_render:
  "path \<noteq> [] \<Longrightarrow>
   Clean path = render (hd path = CHR ''/'')
                  (foldl (clean_elem (hd path = CHR ''/'')) [] (path_elements path))"
  by (simp add: Clean_elements render_def Let_def)

lemma Clean_render_rooted:
  assumes "\<forall>x\<in>set out. plain x"
  shows "Clean (render True out) = render True out"
proof -
  have ne: "render True out \<noteq> []" and hd: "hd (render True out) = CHR ''/''"
    by (simp_all add: render_def)
  have "foldl (clean_elem True) [] (path_elements (render True out))
      = foldl (clean_elem True) [] (rev out)"
  proof (cases "out = []")
    case True
    then show ?thesis by (simp add: render_def clean_elem.simps)
  next
    case False
    have "path_elements (join_elems (rev out)) = rev out"
      using False assms by (intro path_elements_join) (auto simp add: elem_ok_def plain_def)
    then show ?thesis by (simp add: render_def clean_elem.simps)
  qed
  also have "\<dots> = out"
    using assms by (simp add: foldl_clean_plain)
  finally show ?thesis
    using Clean_render [OF ne] hd by simp
qed

lemma Clean_append:
  assumes "a \<noteq> []"
  shows "Clean (a @ CHR ''/'' # b)
       = render (hd a = CHR ''/'')
           (foldl (clean_elem (hd a = CHR ''/''))
              (foldl (clean_elem (hd a = CHR ''/'')) [] (path_elements a))
              (path_elements b))"
proof -
  have "a @ CHR ''/'' # b \<noteq> []" and "hd (a @ CHR ''/'' # b) = hd a"
    using assms by simp_all
  then show ?thesis
    using Clean_render [of "a @ CHR ''/'' # b"] by (simp add: path_elements_append)
qed

lemma HasPrefix_render:
  "HasPrefix (render True (ns @ B)) (render True B)"
  by (simp add: HasPrefix_prefix render_def prefix_join_elems)

lemma lies_under_render:
  assumes "\<forall>x\<in>set (ns @ B). plain x"
  shows "lies_under (render True (ns @ B)) (render True B)"
proof -
  have "segments (render True (ns @ B)) = rev (ns @ B)"
    unfolding segments_def using assms by (rule path_elements_render_rooted)
  moreover have "segments (render True B) = rev B"
    unfolding segments_def using assms by (intro path_elements_render_rooted) simp
  ultimately show ?thesis by (simp add: lies_under_def)
qed

lemma kept_plain:
  "''..'' \<notin> set (path_elements c) \<Longrightarrow> \<forall>x\<in>set (kept c). plain x"
  by (auto simp add: kept_def plain_def elem_ok_def dest: path_elements_no_sep)

lemma scan_kept:
  "''..'' \<notin> set (path_elements c) \<Longrightarrow>
   foldl (clean_elem r) out (path_elements c) = kept c @ out"
  by (simp add: kept_def foldl_clean_no_dotdot)

lemma shape_absolute_base:
  assumes base: "IsAbs base" and c: "''..'' \<notin> set (path_elements c)"
  defines "B \<equiv> foldl (clean_elem True) [] (path_elements base)"
  shows "Abs fs base = Inr (render True B)"
    and "Join base c = render True (kept c @ B)"
    and "Abs fs (Join base c) = Inr (render True (kept c @ B))"
    and "\<forall>x\<in>set (kept c @ B). plain x"
proof -
  have ne: "base \<noteq> []" and hd: "hd base = CHR ''/''"
    using base by (simp_all add: IsAbs_iff)
  show "Abs fs base = Inr (render True B)"
    using base Clean_render [OF ne] hd by (simp add: Abs_def B_def)
  show j: "Join base c = render True (kept c @ B)"
    using ne hd Clean_append [OF ne, of c] scan_kept [OF c] by (simp add: Join_def B_def)
  have "\<forall>x\<in>set B. plain x"
    unfolding B_def by (intro foldl_clean_rooted_plain) (auto dest: path_elements_no_sep)
  then show p: "\<forall>x\<in>set (kept c @ B). plain x"
    using kept_plain [OF c] by auto
  show "Abs fs (Join base c) = Inr (render True (kept c @ B))"
    using j render_rooted_abs Clean_render_rooted [OF p] by (simp add: Abs_def)
qed

lemma shape_relative_base:
  assumes base: "\<not> IsAbs base" and wd: "Getwd fs = Inr wd" "IsAbs wd"
    and c: "''..'' \<notin> set (path_elements c)" and c': "c \<noteq> []" "base \<noteq> [] \<or> \<not> IsAbs c"
  defines "B \<equiv> foldl (clean_elem True) (foldl (clean_elem True) [] (path_elements wd))
                  (path_elements base)"
    and "R \<equiv> foldl (clean_elem False) [] (path_elements base)"
  shows "Abs fs base = Inr (render True B)"
    and "Join base c = render False (kept c @ R)"
    and "Abs fs (Join base c) = Inr (render True (kept c @ B))"
    and "\<forall>x\<in>set (kept c @ B). plain x"
proof -
  have wne: "wd \<noteq> []" and whd: "hd wd = CHR ''/''"
    using wd by (simp_all add: IsAbs_iff)
  have bhd: "base \<noteq> [] \<Longrightarrow> hd base \<noteq> CHR ''/''"
    using base by (simp add: IsAbs_iff)
  show "Abs fs base = Inr (render True B)"
    using base wd wne whd Clean_append [OF wne, of base] by (simp add: Abs_def Join_def B_def)
  have Rok: "\<forall>x\<in>set R. elem_ok x"
    unfolding R_def by (intro foldl_clean_ok) (auto dest: path_elements_no_sep)
  have Rk: "\<forall>x\<in>set (kept c @ R). elem_ok x"
    using Rok kept_plain [OF c] by (auto simp add: plain_def)
  show j: "Join base c = render False (kept c @ R)"
  proof (cases "base = []")
    case True
    then have "hd c \<noteq> CHR ''/''" using c' by (simp add: IsAbs_iff)
    then show ?thesis
      using True c' Clean_render [of c] scan_kept [OF c]
      by (simp add: Join_def R_def clean_elem.simps)
  next
    case False
    then show ?thesis
      using bhd Clean_append [OF False, of c] scan_kept [OF c] by (simp add: Join_def R_def)
  qed
  have "\<forall>x\<in>set (foldl (clean_elem True) [] (path_elements wd)). plain x"
    by (intro foldl_clean_rooted_plain) (auto dest: path_elements_no_sep)
  then have "\<forall>x\<in>set B. plain x"
    unfolding B_def by (intro foldl_clean_rooted_plain) (auto dest: path_elements_no_sep)
  then show "\<forall>x\<in>set (kept c @ B). plain x"
    using kept_plain [OF c] by auto
  have Rinv: "\<forall>x\<in>set ([] :: string list). x \<noteq> [] \<and> x \<noteq> ''.''" by simp
  have "foldl (clean_elem True) (foldl (clean_elem True) [] (path_elements wd))
          (path_elements (render False (kept c @ R)))
      = foldl (clean_elem True) (foldl (clean_elem True) [] (path_elements wd))
          (rev R @ rev (kept c))"
    using scan_render_unrooted [OF Rk] by simp
  also have "\<dots> = kept c @ foldl (clean_elem True)
                       (foldl (clean_elem True) [] (path_elements wd)) (rev R)"
    using kept_plain [OF c] by (simp add: foldl_clean_plain)
  also have "\<dots> = kept c @ B"
    using replay [OF Rinv, of "foldl (clean_elem True) [] (path_elements wd)" "path_elements base"]
    by (simp add: R_def B_def)
  finally have scan: "foldl (clean_elem True) (foldl (clean_elem True) [] (path_elements wd))
          (path_elements (render False (kept c @ R))) = kept c @ B" .
  show "Abs fs (Join base c) = Inr (render True (kept c @ B))"
    using j render_unrooted_not_abs [OF Rk] wd wne whd
      Clean_append [OF wne, of "render False (kept c @ R)"] scan
    by (simp add: Abs_def Join_def)
qed

lemma Clean_nonempty: "Clean path \<noteq> []"
proof (cases "path = []")
  case True
  then show ?thesis by (simp add: Clean_elements)
next
  case False
  have "\<forall>x\<in>set (foldl (clean_elem (hd path = CHR ''/'')) [] (path_elements path)). elem_ok x"
    by (intro foldl_clean_ok) (auto dest: path_elements_no_sep)
  then show ?thesis
    using Clean_render [OF False] render_nonempty by simp
qed

lemma no_dotdot_element:
  "\<not> Contains c ''..'' \<Longrightarrow> ''..'' \<notin> set (path_elements c)"
  using dotdot_element_Contains by blast

lemma resolvableI:
  "wd_absolute fs \<Longrightarrow> Abs fs base = Inr absBase \<Longrightarrow> resolvable fs base"
  by (auto simp add: resolvable_def wd_absolute_def Abs_def split: sum.splits if_splits)

lemma checked_shape:
  assumes r: "resolvable fs base"
    and c: "''..'' \<notin> set (path_elements c)" "c \<noteq> []" "base \<noteq> [] \<or> \<not> IsAbs c"
  shows "\<exists>B. Abs fs base = Inr (render True B)
           \<and> Abs fs (Join base c) = Inr (render True (kept c @ B))
           \<and> (\<forall>x\<in>set (kept c @ B). plain x)"
proof (cases "IsAbs base")
  case True
  show ?thesis
    using shape_absolute_base [OF True c(1)] by blast
next
  case False
  then obtain w where w: "Getwd fs = Inr w" "IsAbs w"
    using r by (auto simp add: resolvable_def split: sum.splits)
  show ?thesis
    using shape_relative_base [OF False w c] by blast
qed

lemma checks_pass:
  assumes r: "resolvable fs base"
    and c: "\<not> Contains (Clean path) ''..''" "base \<noteq> [] \<or> \<not> IsAbs (Clean path)"
  shows "\<exists>absBase absPath. Abs fs base = Inr absBase
           \<and> Abs fs (Join base (Clean path)) = Inr absPath
           \<and> HasPrefix absPath absBase \<and> lies_under absPath absBase"
proof -
  obtain B where B: "Abs fs base = Inr (render True B)"
      "Abs fs (Join base (Clean path)) = Inr (render True (kept (Clean path) @ B))"
      "\<forall>x\<in>set (kept (Clean path) @ B). plain x"
    using checked_shape [OF r no_dotdot_element [OF c(1)] Clean_nonempty c(2)] by blast
  show ?thesis
    using B HasPrefix_render [of "kept (Clean path)" B] lies_under_render [OF B(3)] by simp
qed

subsection \<open>Evaluation on examples\<close>

lemmas path_defs = Clean_elements Join_def Abs_def IsAbs_def HasPrefix_def clean_elem.simps

lemmas storage_defs = Get_def Exists_def NewLocalStorage_def rejected_def IsNotExist_def

lemmas example_defs = small_fs_def enoent_def eacces_def small_mime_table_def


text \<open>
  The model of \<open>Clean\<close> on inputs from the table of the Go library's own test of
  \<open>filepath.Clean\<close>, and \<open>Join\<close> and \<open>Ext\<close> on inputs that show their corner cases.
\<close>

lemma Clean_examples:
  "Clean [] = ''.''"
  "Clean ''abc'' = ''abc''"
  "Clean ''abc/def'' = ''abc/def''"
  "Clean ''.'' = ''.''"
  "Clean ''..'' = ''..''"
  "Clean ''../../abc'' = ''../../abc''"
  "Clean ''/abc'' = ''/abc''"
  "Clean ''/'' = ''/''"
  "Clean ''abc/'' = ''abc''"
  "Clean ''../'' = ''..''"
  "Clean ''abc//def//ghi'' = ''abc/def/ghi''"
  "Clean ''//abc//'' = ''/abc''"
  "Clean ''abc/./def'' = ''abc/def''"
  "Clean ''/./abc/def'' = ''/abc/def''"
  "Clean ''abc/def/ghi/../jkl'' = ''abc/def/jkl''"
  "Clean ''abc/def/../..'' = ''.''"
  "Clean ''/abc/def/../..'' = ''/''"
  "Clean ''abc/def/../../..'' = ''..''"
  "Clean ''/abc/def/../../..'' = ''/''"
  "Clean ''abc/def/../../../ghi/jkl/../../../mno'' = ''../../mno''"
  "Clean ''/../abc'' = ''/abc''"
  "Clean ''abc/./../def'' = ''def''"
  "Clean ''abc/../../././../def'' = ''../../def''"
  by (simp_all add: Clean_elements clean_elem.simps)

lemma Join_examples:
  "Join ''/data/assets'' ''img/a.png'' = ''/data/assets/img/a.png''"
  "Join ''/data/assets'' ''/img/a.png'' = ''/data/assets/img/a.png''"
  "Join ''./assets'' ''.'' = ''assets''"
  "Join ''/app'' [] = ''/app''"
  "Join [] ''a/../b'' = ''b''"
  "Join [] ''/etc/passwd'' = ''/etc/passwd''"
  "Join [] [] = []"
  by (simp_all add: Join_def Clean_elements clean_elem.simps)

lemma Ext_examples:
  "Ext ''x.jpg'' = ''.jpg''"
  "Ext ''a/b.tar.gz'' = ''.gz''"
  "Ext ''a.b/c'' = []"
  "Ext ''a/.hidden'' = ''.hidden''"
  "Ext ''plain'' = []"
  by (simp_all add: Ext_def)


section \<open>What \<open>Get\<close> and \<open>Exists\<close> share\<close>

lemma Get_opened_cases:
  "res_opened (Get fs s path) = [] \<or>
   res_opened (Get fs s path) = [Join (basePath s) (Clean path)]"
  by (simp add: Get_def rejected_def Let_def split: sum.splits prod.splits)

lemma Get_rejected_iff:
  "res_opened (Get fs s path) = [] \<longleftrightarrow>
     (\<exists>e. Get fs s path = rejected e \<and>
          (InvalidPath e \<or> (\<exists>oe. e = ResolveBaseFailed oe \<or> e = ResolveFileFailed oe)))"
  by (auto simp add: Get_def rejected_def Let_def split: sum.splits prod.splits)

lemma Get_InvalidPath_opens_nothing:
  "res_err (Get fs s path) = Some e \<Longrightarrow> path_check_error e \<Longrightarrow> res_opened (Get fs s path) = []"
  by (auto simp add: Get_def rejected_def Let_def split: sum.splits prod.splits if_splits)

lemma Exists_statted_Get_opened:
  "ex_statted (Exists fs s path) = res_opened (Get fs s path)"
  by (simp add: Get_def Exists_def rejected_def Let_def split: sum.splits prod.splits)

lemma Exists_found_iff:
  "ex_found (Exists fs s path) \<longleftrightarrow>
     ex_statted (Exists fs s path) = [Join (basePath s) (Clean path)]
     \<and> Stat fs (Join (basePath s) (Clean path)) = None"
  by (simp add: Exists_def Let_def split: sum.splits)

lemma Get_open_failed:
  assumes "res_opened (Get fs s path) = [full]" and "Open fs full = Inl oe"
  shows "Get fs s path =
           \<lparr>res_data = None,
            res_err = Some (if IsNotExist oe then FileNotFound else OpenFailed oe),
            res_opened = [full]\<rparr>"
  using assms
  by (auto simp add: Get_def rejected_def Let_def split: sum.splits prod.splits if_splits)

lemma Get_opened_lies_under:
  assumes wd: "wd_absolute fs" and base: "basePath s \<noteq> [] \<or> \<not> IsAbs (Clean path)"
    and op: "res_opened (Get fs s path) = [full]"
  shows "\<exists>absBase absPath. Abs fs (basePath s) = Inr absBase \<and> Abs fs full = Inr absPath
           \<and> lies_under absPath absBase"
proof -
  have c: "\<not> Contains (Clean path) ''..''"
    using op by (auto simp add: Get_def rejected_def)
  obtain absBase where b: "Abs fs (basePath s) = Inr absBase"
    using op c by (cases "Abs fs (basePath s)") (auto simp add: Get_def rejected_def Let_def)
  have f: "full = Join (basePath s) (Clean path)"
    using op Get_opened_cases [of fs s path] by auto
  show ?thesis
    using checks_pass [OF resolvableI [OF wd b] c base] f by auto
qed

lemma Get_after_checks:
  assumes r: "resolvable fs (basePath s)"
    and c: "\<not> Contains (Clean path) ''..''" "basePath s \<noteq> [] \<or> \<not> IsAbs (Clean path)"
  shows "Get fs s path =
          (case Open fs (Join (basePath s) (Clean path)) of
             Inl e \<Rightarrow>
               \<lparr>res_data = None,
                res_err = Some (if IsNotExist e then FileNotFound else OpenFailed e),
                res_opened = [Join (basePath s) (Clean path)]\<rparr>
           | Inr (content, read_err) \<Rightarrow>
               \<lparr>res_data = Some content, res_err = map_option ReadError read_err,
                res_opened = [Join (basePath s) (Clean path)]\<rparr>)"
proof -
  obtain absBase absPath where "Abs fs (basePath s) = Inr absBase"
      "Abs fs (Join (basePath s) (Clean path)) = Inr absPath" "HasPrefix absPath absBase"
    using checks_pass [OF r c] by blast
  then show ?thesis
    using c(1) by (simp add: Get_def Let_def split: sum.splits prod.splits)
qed

lemma Exists_after_checks:
  assumes r: "resolvable fs (basePath s)"
    and c: "\<not> Contains (Clean path) ''..''" "basePath s \<noteq> [] \<or> \<not> IsAbs (Clean path)"
  shows "Exists fs s path =
           \<lparr>ex_found = (Stat fs (Join (basePath s) (Clean path)) = None),
            ex_statted = [Join (basePath s) (Clean path)]\<rparr>"
proof -
  obtain absBase absPath where "Abs fs (basePath s) = Inr absBase"
      "Abs fs (Join (basePath s) (Clean path)) = Inr absPath" "HasPrefix absPath absBase"
    using checks_pass [OF r c] by blast
  then show ?thesis
    using c(1) by (simp add: Exists_def Let_def)
qed

lemma Clean_sub_dir_file: "Clean ''sub/dir/file.bin'' = ''sub/dir/file.bin''"
  by (simp add: Clean_elements clean_elem.simps)

text \<open>
  The base path \<open>main\<close> configures is never empty, so whatever the handler's store
  opens lies under the absolute form of that base path, segment by segment.
\<close>

lemma assetsBasePath_nonempty: "assetsBasePath env \<noteq> []"
  by (simp add: assetsBasePath_def)

lemma served_from_inside_root:
  assumes "wd_absolute fs"
    and "res_opened (Get fs (NewLocalStorage (assetsBasePath env)) path) = [full]"
  shows "\<exists>absBase absPath. Abs fs (assetsBasePath env) = Inr absBase
           \<and> Abs fs full = Inr absPath \<and> lies_under absPath absBase"
  using Get_opened_lies_under [OF assms(1) _ assms(2)] assetsBasePath_nonempty [of env]
  by (simp add: NewLocalStorage_def)


section \<open>The traversal screen\<close>

text \<open>
  C9: whenever the cleaned request path contains the two characters \<open>..\<close> anywhere,
  also inside an ordinary file name such as \<open>notes..old.txt\<close>, \<open>Get\<close> returns the
  invalid-path error with no data and opens no file, and \<open>Exists\<close> returns false
  without looking at the file system, whatever the file system holds.
\<close>

theorem dotdot_substring_rejected:
  assumes "Contains (Clean path) ''..''"
  shows "res_err (Get fs s path) = Some InvalidPathTraversal
       \<and> InvalidPath InvalidPathTraversal
       \<and> res_data (Get fs s path) = None
       \<and> res_opened (Get fs s path) = []
       \<and> Exists fs s path = \<lparr>ex_found = False, ex_statted = []\<rparr>"
  using assms by (simp add: Get_def Exists_def rejected_def)

theorem dotdot_substring_rejected_witness:
  "Contains (Clean ''notes..old.txt'') ''..''
   \<and> Join ''/srv/assets'' ''notes..old.txt'' = ''/srv/assets/notes..old.txt''
   \<and> Open (small_fs ''/app'' ''/srv/assets/notes..old.txt'' ''kept'' [])
        ''/srv/assets/notes..old.txt'' = Inr (''kept'', None)
   \<and> res_err (Get (small_fs ''/app'' ''/srv/assets/notes..old.txt'' ''kept'' [])
        (NewLocalStorage ''/srv/assets'') ''notes..old.txt'') = Some InvalidPathTraversal
   \<and> res_opened (Get (small_fs ''/app'' ''/srv/assets/notes..old.txt'' ''kept'' [])
        (NewLocalStorage ''/srv/assets'') ''notes..old.txt'') = []
   \<and> \<not> ex_found (Exists (small_fs ''/app'' ''/srv/assets/notes..old.txt'' ''kept'' [])
        (NewLocalStorage ''/srv/assets'') ''notes..old.txt'')"
proof -
  have h: "Contains (Clean ''notes..old.txt'') ''..''"
    by (simp add: path_defs)
  have j: "Join ''/srv/assets'' ''notes..old.txt'' = ''/srv/assets/notes..old.txt''"
    by (simp add: path_defs)
  have f: "Open (small_fs ''/app'' ''/srv/assets/notes..old.txt'' ''kept'' [])
        ''/srv/assets/notes..old.txt'' = Inr (''kept'', None)"
    by (simp add: example_defs)
  show ?thesis
    using h j f
      dotdot_substring_rejected [OF h,
        of "small_fs ''/app'' ''/srv/assets/notes..old.txt'' ''kept'' []"
           "NewLocalStorage ''/srv/assets''"]
    by simp
qed

text \<open>
  C3: whenever the cleaned request path has a parent-directory element \<open>..\<close>, as
  \<open>../../etc/passwd\<close> has, \<open>Get\<close> returns the invalid-path error with no data and
  opens no file. The result is the same for every base path and every file system: the
  decision is taken before the path is joined with the root.
\<close>

theorem parent_segment_rejected:
  assumes "''..'' \<in> set (path_elements (Clean path))"
  shows "Get fs s path = rejected InvalidPathTraversal
       \<and> InvalidPath InvalidPathTraversal
       \<and> res_data (Get fs s path) = None
       \<and> res_opened (Get fs s path) = []"
proof -
  have "Contains (Clean path) ''..''"
    using assms by (rule dotdot_element_Contains)
  then show ?thesis by (simp add: Get_def rejected_def)
qed

theorem parent_segment_rejected_witness:
  "''..'' \<in> set (path_elements (Clean ''../../etc/passwd''))
   \<and> Get (small_fs ''/app'' ''/etc/passwd'' ''root:x:0:0'' []) (NewLocalStorage ''/app/assets'')
        ''../../etc/passwd'' = rejected InvalidPathTraversal
   \<and> res_opened (Get (small_fs ''/app'' ''/etc/passwd'' ''root:x:0:0'' [])
        (NewLocalStorage ''/app/assets'') ''../../etc/passwd'') = []"
proof -
  have h: "''..'' \<in> set (path_elements (Clean ''../../etc/passwd''))"
    by (simp add: path_defs)
  show ?thesis
    using h
      parent_segment_rejected [OF h,
        of "small_fs ''/app'' ''/etc/passwd'' ''root:x:0:0'' []" "NewLocalStorage ''/app/assets''"]
    by (simp add: rejected_def)
qed


section \<open>Content types\<close>

lemma detect_content_type_total:
  "detect_content_type T assetPath content =
     Some (if 4 < length content \<and> (take 4 content = ''<svg'' \<or> take 5 content = ''<?xml'')
           then ''image/svg+xml''
           else if T (Ext assetPath) = [] then ''application/octet-stream''
           else T (Ext assetPath))"
  by (simp add: detect_content_type_def slice_to_def Let_def)

text \<open>
  C4, as amended: the handler's content type is SVG when the content is longer than four
  bytes and starts with \<open><svg\<close> or \<open><?xml\<close>, whatever the extension; otherwise it is
  the type of the path's extension; and the generic binary type when the extension has none.
\<close>

theorem content_type_rule:
  "detect_content_type T assetPath content =
     Some (if 4 < length content \<and> (take 4 content = ''<svg'' \<or> take 5 content = ''<?xml'')
           then ''image/svg+xml''
           else if T (Ext assetPath) = [] then ''application/octet-stream''
           else T (Ext assetPath))"
  by (rule detect_content_type_total)

theorem content_type_rule_witness:
  "detect_content_type small_mime_table ''x.jpg'' ''<svg xmlns='' = Some ''image/svg+xml''
   \<and> detect_content_type small_mime_table ''x.jpg'' ''<?xml version'' = Some ''image/svg+xml''
   \<and> detect_content_type small_mime_table ''x.jpg'' ''JFIF....'' = Some ''image/jpeg''
   \<and> detect_content_type small_mime_table ''x.bin'' ''JFIF....'' = Some ''application/octet-stream''"
  using content_type_rule [of small_mime_table "''x.jpg''" "''<svg xmlns=''"]
    content_type_rule [of small_mime_table "''x.jpg''" "''<?xml version''"]
    content_type_rule [of small_mime_table "''x.jpg''" "''JFIF....''"]
    content_type_rule [of small_mime_table "''x.bin''" "''JFIF....''"]
  by (simp add: Ext_def small_mime_table_def)

text \<open>
  The rule as the specification words it fails on a file whose whole content is the four
  bytes \<open><svg\<close>: the specification's rule says SVG, the handler says JPEG.
\<close>

theorem content_type_four_bytes_counterexample:
  "spec_content_type small_mime_table ''x.jpg'' ''<svg'' = ''image/svg+xml''
   \<and> detect_content_type small_mime_table ''x.jpg'' ''<svg'' = Some ''image/jpeg''"
  by (simp add: spec_content_type_def detect_content_type_def slice_to_def Ext_def
      small_mime_table_def)

text \<open>
  C5: on content shorter than five bytes the classifier does not panic (no slice is taken
  out of range), does not apply the SVG rule, and answers with the type of the extension
  or, when the extension has none, with the generic binary type.
\<close>

theorem short_content_safe:
  assumes "length content < 5"
  shows "detect_content_type T assetPath content =
           Some (if T (Ext assetPath) = [] then ''application/octet-stream''
                 else T (Ext assetPath))"
  using assms by (simp add: detect_content_type_def slice_to_def Let_def)

theorem short_content_safe_witness:
  "length ([] :: bytes) < 5 \<and> length ''<sv'' < 5 \<and> length ''<svg'' < 5
   \<and> detect_content_type small_mime_table ''x.jpg'' [] = Some ''image/jpeg''
   \<and> detect_content_type small_mime_table ''x.jpg'' ''<sv'' = Some ''image/jpeg''
   \<and> detect_content_type small_mime_table ''x.svg'' ''<svg'' = Some ''application/octet-stream''"
proof -
  have a: "length ([] :: bytes) < 5" and b: "length ''<sv'' < 5" and c: "length ''<svg'' < 5"
    by simp_all
  show ?thesis
    using short_content_safe [OF a, of small_mime_table "''x.jpg''"]
      short_content_safe [OF b, of small_mime_table "''x.jpg''"]
      short_content_safe [OF c, of small_mime_table "''x.svg''"]
    by (simp add: Ext_def small_mime_table_def)
qed


section \<open>The handler's responses\<close>

lemma select_store_local: "fst (select_store base storageLocation) = NewLocalStorage base"
  by (simp add: select_store_def)

lemma asset_handler_error:
  assumes "res_err (Get fs (NewLocalStorage base) (TrimPrefix urlPath ''/assets/'')) = Some e"
  shows "resp (asset_handler T fs base storageLocation urlPath) = Some (http_Error ''not found'' 404)"
  using assms by (simp add: asset_handler_def select_store_def Let_def)

text \<open>
  C6: whatever error \<open>Get\<close> returns (invalid path, file not found, or a failure of the
  operating system), the handler answers with one and the same response: status 404 and
  the text \<open>not found\<close> (which \<open>http.Error\<close> ends with a line feed). The response does
  not depend on the error, so it carries none of the error's text.
\<close>

theorem every_error_is_not_found:
  assumes "res_err (Get fs (NewLocalStorage base) (TrimPrefix urlPath ''/assets/'')) = Some e"
  shows "resp (asset_handler T fs base storageLocation urlPath) =
           Some \<lparr>status = 404,
                 headers = [(''Content-Type'', ''text/plain; charset=utf-8''),
                            (''X-Content-Type-Options'', ''nosniff'')],
                 body = ''not found'' @ [CHR 0x0A]\<rparr>"
  using asset_handler_error [OF assms] by (simp add: http_Error_def)

theorem every_error_is_not_found_witness:
  "res_err (Get (small_fs ''/app'' ''/srv/assets/a.png'' ''PNG'' ''/srv/assets/b.png'')
      (NewLocalStorage ''/srv/assets'') (TrimPrefix ''/assets/../secret'' ''/assets/''))
     = Some InvalidPathTraversal
   \<and> res_err (Get (small_fs ''/app'' ''/srv/assets/a.png'' ''PNG'' ''/srv/assets/b.png'')
      (NewLocalStorage ''/srv/assets'') (TrimPrefix ''/assets/missing.png'' ''/assets/''))
     = Some FileNotFound
   \<and> res_err (Get (small_fs ''/app'' ''/srv/assets/a.png'' ''PNG'' ''/srv/assets/b.png'')
      (NewLocalStorage ''/srv/assets'') (TrimPrefix ''/assets/b.png'' ''/assets/''))
     = Some (OpenFailed eacces)
   \<and> resp (asset_handler small_mime_table
        (small_fs ''/app'' ''/srv/assets/a.png'' ''PNG'' ''/srv/assets/b.png'')
        ''/srv/assets'' ''local'' ''/assets/../secret'')
     = Some (http_Error ''not found'' 404)
   \<and> resp (asset_handler small_mime_table
        (small_fs ''/app'' ''/srv/assets/a.png'' ''PNG'' ''/srv/assets/b.png'')
        ''/srv/assets'' ''local'' ''/assets/missing.png'')
     = Some (http_Error ''not found'' 404)
   \<and> resp (asset_handler small_mime_table
        (small_fs ''/app'' ''/srv/assets/a.png'' ''PNG'' ''/srv/assets/b.png'')
        ''/srv/assets'' ''local'' ''/assets/b.png'')
     = Some (http_Error ''not found'' 404)"
proof -
  let ?fs = "small_fs ''/app'' ''/srv/assets/a.png'' ''PNG'' ''/srv/assets/b.png''"
  have a: "res_err (Get ?fs (NewLocalStorage ''/srv/assets'')
      (TrimPrefix ''/assets/../secret'' ''/assets/'')) = Some InvalidPathTraversal"
    by (simp add: TrimPrefix_def path_defs storage_defs)
  have b: "res_err (Get ?fs (NewLocalStorage ''/srv/assets'')
      (TrimPrefix ''/assets/missing.png'' ''/assets/'')) = Some FileNotFound"
    by (simp add: TrimPrefix_def path_defs storage_defs example_defs)
  have c: "res_err (Get ?fs (NewLocalStorage ''/srv/assets'')
      (TrimPrefix ''/assets/b.png'' ''/assets/'')) = Some (OpenFailed eacces)"
    by (simp add: TrimPrefix_def path_defs storage_defs example_defs)
  show ?thesis
    using a b c
      every_error_is_not_found [OF a, of small_mime_table "''local''"]
      every_error_is_not_found [OF b, of small_mime_table "''local''"]
      every_error_is_not_found [OF c, of small_mime_table "''local''"]
    by (simp add: http_Error_def)
qed

text \<open>
  C10: the handler's response does not depend on the \<open>ImageStorageLocation\<close> flag.
  Every value of the flag selects the local store on the same base path, so two runs that
  differ only in the flag answer alike. (The \<open>bucket\<close> value adds a warning to the log,
  not to the response.)
\<close>

theorem response_independent_of_flag:
  "fst (select_store base storageLocation) = NewLocalStorage base
   \<and> fst (select_store base storageLocation') = NewLocalStorage base
   \<and> resp (asset_handler T fs base storageLocation urlPath)
       = resp (asset_handler T fs base storageLocation' urlPath)"
  by (simp add: asset_handler_def select_store_def Let_def split: option.splits)

theorem response_independent_of_flag_witness:
  "resp (asset_handler small_mime_table
        (small_fs ''/app'' ''/srv/assets/a.png'' ''<svg xmlns'' []) ''/srv/assets''
        ''bucket'' ''/assets/a.png'')
     = Some \<lparr>status = 200,
             headers = [(''Content-Type'', ''image/svg+xml''),
                        (''Cache-Control'', ''public, max-age=31536000'')],
             body = ''<svg xmlns''\<rparr>
   \<and> resp (asset_handler small_mime_table
        (small_fs ''/app'' ''/srv/assets/a.png'' ''<svg xmlns'' []) ''/srv/assets''
        ''local'' ''/assets/a.png'')
     = resp (asset_handler small_mime_table
        (small_fs ''/app'' ''/srv/assets/a.png'' ''<svg xmlns'' []) ''/srv/assets''
        ''bucket'' ''/assets/a.png'')
   \<and> logged (asset_handler small_mime_table
        (small_fs ''/app'' ''/srv/assets/a.png'' ''<svg xmlns'' []) ''/srv/assets''
        ''local'' ''/assets/a.png'')
     \<noteq> logged (asset_handler small_mime_table
        (small_fs ''/app'' ''/srv/assets/a.png'' ''<svg xmlns'' []) ''/srv/assets''
        ''bucket'' ''/assets/a.png'')"
proof -
  let ?fs = "small_fs ''/app'' ''/srv/assets/a.png'' ''<svg xmlns'' []"
  have g: "Get ?fs (NewLocalStorage ''/srv/assets'') ''a.png''
      = \<lparr>res_data = Some ''<svg xmlns'', res_err = None,
         res_opened = [''/srv/assets/a.png'']\<rparr>"
    by (simp add: path_defs storage_defs example_defs)
  have t: "TrimPrefix ''/assets/a.png'' ''/assets/'' = ''a.png''"
    by (simp add: TrimPrefix_def HasPrefix_def)
  have d: "detect_content_type small_mime_table ''a.png'' ''<svg xmlns'' = Some ''image/svg+xml''"
    by (simp add: detect_content_type_def slice_to_def)
  have r: "resp (asset_handler small_mime_table ?fs ''/srv/assets'' ''bucket'' ''/assets/a.png'')
     = Some \<lparr>status = 200,
             headers = [(''Content-Type'', ''image/svg+xml''),
                        (''Cache-Control'', ''public, max-age=31536000'')],
             body = ''<svg xmlns''\<rparr>"
    by (simp add: asset_handler_def select_store_def g t d)
  have l: "logged (asset_handler small_mime_table ?fs ''/srv/assets'' ''local'' ''/assets/a.png'')
     \<noteq> logged (asset_handler small_mime_table ?fs ''/srv/assets'' ''bucket'' ''/assets/a.png'')"
    by (simp add: asset_handler_def select_store_def g t d)
  show ?thesis
    using r l
      response_independent_of_flag [of "''/srv/assets''" "''local''" "''bucket''"
        small_mime_table ?fs "''/assets/a.png''"]
    by simp
qed


section \<open>Existence checks and absent files\<close>

text \<open>
  C8: \<open>Exists\<close> runs the same path checks as \<open>Get\<close>: it hands \<open>os.Stat\<close> exactly
  the path \<open>Get\<close> hands \<open>os.Open\<close>, and none when \<open>Get\<close> rejects the path. It is a
  total function to a boolean; it returns false for every path the checks reject and for
  every validated path on which \<open>os.Stat\<close> reports an error. \<open>Get\<close> on a validated
  path whose file the operating system reports absent returns the file-not-found error
  with no data, and a different error for any other failure to open.
\<close>

theorem Exists_agrees_with_Get:
  "ex_statted (Exists fs s path) = res_opened (Get fs s path)
   \<and> (res_opened (Get fs s path) = [] \<longrightarrow> \<not> ex_found (Exists fs s path))
   \<and> (\<forall>e. res_err (Get fs s path) = Some e \<and> path_check_error e
         \<longrightarrow> Exists fs s path = \<lparr>ex_found = False, ex_statted = []\<rparr>)
   \<and> (\<forall>full e. res_opened (Get fs s path) = [full] \<and> Stat fs full = Some e
         \<longrightarrow> \<not> ex_found (Exists fs s path))
   \<and> (\<forall>full oe. res_opened (Get fs s path) = [full] \<and> Open fs full = Inl oe \<and> IsNotExist oe
         \<longrightarrow> res_err (Get fs s path) = Some FileNotFound \<and> res_data (Get fs s path) = None)
   \<and> (\<forall>full oe. res_opened (Get fs s path) = [full] \<and> Open fs full = Inl oe \<and> \<not> IsNotExist oe
         \<longrightarrow> res_err (Get fs s path) = Some (OpenFailed oe)
             \<and> res_err (Get fs s path) \<noteq> Some FileNotFound)"
proof (intro conjI allI impI)
  show "ex_statted (Exists fs s path) = res_opened (Get fs s path)"
    by (rule Exists_statted_Get_opened)
next
  assume "res_opened (Get fs s path) = []"
  then show "\<not> ex_found (Exists fs s path)"
    by (simp add: Exists_found_iff Exists_statted_Get_opened)
next
  fix e
  assume "res_err (Get fs s path) = Some e \<and> path_check_error e"
  then have "res_opened (Get fs s path) = []"
    using Get_InvalidPath_opens_nothing by blast
  then have "ex_statted (Exists fs s path) = []" and "\<not> ex_found (Exists fs s path)"
    by (simp_all add: Exists_found_iff Exists_statted_Get_opened)
  then show "Exists fs s path = \<lparr>ex_found = False, ex_statted = []\<rparr>"
    by (cases "Exists fs s path") simp
next
  fix full e
  assume a: "res_opened (Get fs s path) = [full] \<and> Stat fs full = Some e"
  then show "\<not> ex_found (Exists fs s path)"
    by (auto simp add: Exists_found_iff Exists_statted_Get_opened)
next
  fix full oe
  assume a: "res_opened (Get fs s path) = [full] \<and> Open fs full = Inl oe \<and> IsNotExist oe"
  then show "res_err (Get fs s path) = Some FileNotFound"
    using Get_open_failed [of fs s path full oe] by simp
  from a show "res_data (Get fs s path) = None"
    using Get_open_failed [of fs s path full oe] by simp
next
  fix full oe
  assume a: "res_opened (Get fs s path) = [full] \<and> Open fs full = Inl oe \<and> \<not> IsNotExist oe"
  then show "res_err (Get fs s path) = Some (OpenFailed oe)"
    using Get_open_failed [of fs s path full oe] by simp
  from a show "res_err (Get fs s path) \<noteq> Some FileNotFound"
    using Get_open_failed [of fs s path full oe] by simp
qed

theorem Exists_agrees_with_Get_witness:
  "res_opened (Get (small_fs ''/app'' ''/srv/assets/a.png'' ''PNG'' ''/srv/assets/b.png'')
      (NewLocalStorage ''/srv/assets'') ''missing.png'') = [''/srv/assets/missing.png'']
   \<and> Open (small_fs ''/app'' ''/srv/assets/a.png'' ''PNG'' ''/srv/assets/b.png'')
      ''/srv/assets/missing.png'' = Inl enoent
   \<and> Stat (small_fs ''/app'' ''/srv/assets/a.png'' ''PNG'' ''/srv/assets/b.png'')
      ''/srv/assets/missing.png'' = Some enoent
   \<and> IsNotExist enoent
   \<and> res_err (Get (small_fs ''/app'' ''/srv/assets/a.png'' ''PNG'' ''/srv/assets/b.png'')
      (NewLocalStorage ''/srv/assets'') ''missing.png'') = Some FileNotFound
   \<and> \<not> ex_found (Exists (small_fs ''/app'' ''/srv/assets/a.png'' ''PNG'' ''/srv/assets/b.png'')
      (NewLocalStorage ''/srv/assets'') ''missing.png'')
   \<and> res_opened (Get (small_fs ''/app'' ''/srv/assets/a.png'' ''PNG'' ''/srv/assets/b.png'')
      (NewLocalStorage ''/srv/assets'') ''../a.png'') = []
   \<and> \<not> ex_found (Exists (small_fs ''/app'' ''/srv/assets/a.png'' ''PNG'' ''/srv/assets/b.png'')
      (NewLocalStorage ''/srv/assets'') ''../a.png'')
   \<and> res_opened (Get (small_fs ''/app'' ''/srv/assets/a.png'' ''PNG'' ''/srv/assets/b.png'')
      (NewLocalStorage ''/srv/assets'') ''b.png'') = [''/srv/assets/b.png'']
   \<and> \<not> IsNotExist eacces
   \<and> res_err (Get (small_fs ''/app'' ''/srv/assets/a.png'' ''PNG'' ''/srv/assets/b.png'')
      (NewLocalStorage ''/srv/assets'') ''b.png'') = Some (OpenFailed eacces)
   \<and> ex_found (Exists (small_fs ''/app'' ''/srv/assets/a.png'' ''PNG'' ''/srv/assets/b.png'')
      (NewLocalStorage ''/srv/assets'') ''a.png'')"
proof -
  let ?fs = "small_fs ''/app'' ''/srv/assets/a.png'' ''PNG'' ''/srv/assets/b.png''"
  let ?s = "NewLocalStorage ''/srv/assets''"
  have m: "res_opened (Get ?fs ?s ''missing.png'') = [''/srv/assets/missing.png'']"
    by (simp add: path_defs storage_defs example_defs)
  have om: "Open ?fs ''/srv/assets/missing.png'' = Inl enoent"
    and sm: "Stat ?fs ''/srv/assets/missing.png'' = Some enoent"
    and ne: "IsNotExist enoent" and na: "\<not> IsNotExist eacces"
    by (simp_all add: example_defs IsNotExist_def)
  have t: "res_opened (Get ?fs ?s ''../a.png'') = []"
    by (simp add: path_defs storage_defs)
  have b: "res_opened (Get ?fs ?s ''b.png'') = [''/srv/assets/b.png'']"
    by (simp add: path_defs storage_defs example_defs)
  have ob: "Open ?fs ''/srv/assets/b.png'' = Inl eacces"
    by (simp add: example_defs)
  have ea: "ex_found (Exists ?fs ?s ''a.png'')"
    by (simp add: path_defs storage_defs example_defs)
  show ?thesis
    using m om sm ne na t b ob ea
      Exists_agrees_with_Get [of ?fs ?s "''missing.png''"]
      Exists_agrees_with_Get [of ?fs ?s "''../a.png''"]
      Exists_agrees_with_Get [of ?fs ?s "''b.png''"]
    by simp
qed

section \<open>Reading a file that is there\<close>

text \<open>
  C7: let a file with content \<open>B\<close> be present at \<open>sub/dir/file.bin\<close> under the root:
  the root has an absolute form, and opening the join of the root and
  \<open>sub/dir/file.bin\<close> and reading it to the end gives \<open>B\<close> without error. Then
  \<open>Get\<close> with the request path \<open>sub/dir/file.bin\<close> opens exactly that file and
  returns exactly \<open>B\<close> and no error.
\<close>

theorem round_trip:
  assumes "resolvable fs (basePath s)"
    and "Open fs (Join (basePath s) ''sub/dir/file.bin'') = Inr (B, None)"
  shows "Get fs s ''sub/dir/file.bin'' =
           \<lparr>res_data = Some B, res_err = None,
            res_opened = [Join (basePath s) ''sub/dir/file.bin'']\<rparr>"
proof -
  have c: "\<not> Contains (Clean ''sub/dir/file.bin'') ''..''"
    by (simp add: Clean_sub_dir_file HasPrefix_def)
  have r: "basePath s \<noteq> [] \<or> \<not> IsAbs (Clean ''sub/dir/file.bin'')"
    by (simp add: Clean_sub_dir_file IsAbs_iff)
  show ?thesis
    using Get_after_checks [OF assms(1) c r] assms(2)
    by (simp add: Clean_sub_dir_file)
qed

theorem round_trip_witness:
  "resolvable (small_fs ''/app'' ''/srv/assets/sub/dir/file.bin'' ''BYTES'' [])
      (basePath (NewLocalStorage ''/srv/assets''))
   \<and> Open (small_fs ''/app'' ''/srv/assets/sub/dir/file.bin'' ''BYTES'' [])
      (Join (basePath (NewLocalStorage ''/srv/assets'')) ''sub/dir/file.bin'') = Inr (''BYTES'', None)
   \<and> Get (small_fs ''/app'' ''/srv/assets/sub/dir/file.bin'' ''BYTES'' [])
      (NewLocalStorage ''/srv/assets'') ''sub/dir/file.bin''
     = \<lparr>res_data = Some ''BYTES'', res_err = None,
        res_opened = [''/srv/assets/sub/dir/file.bin'']\<rparr>
   \<and> resolvable (small_fs ''/app'' ''assets/sub/dir/file.bin'' ''BYTES'' [])
      (basePath (NewLocalStorage ''./assets''))
   \<and> Open (small_fs ''/app'' ''assets/sub/dir/file.bin'' ''BYTES'' [])
      (Join (basePath (NewLocalStorage ''./assets'')) ''sub/dir/file.bin'') = Inr (''BYTES'', None)
   \<and> Get (small_fs ''/app'' ''assets/sub/dir/file.bin'' ''BYTES'' [])
      (NewLocalStorage ''./assets'') ''sub/dir/file.bin''
     = \<lparr>res_data = Some ''BYTES'', res_err = None,
        res_opened = [''assets/sub/dir/file.bin'']\<rparr>"
proof -
  let ?fa = "small_fs ''/app'' ''/srv/assets/sub/dir/file.bin'' ''BYTES'' []"
  let ?fr = "small_fs ''/app'' ''assets/sub/dir/file.bin'' ''BYTES'' []"
  have ra: "resolvable ?fa (basePath (NewLocalStorage ''/srv/assets''))"
    by (simp add: resolvable_def NewLocalStorage_def IsAbs_def HasPrefix_def)
  have ja: "Join (basePath (NewLocalStorage ''/srv/assets'')) ''sub/dir/file.bin''
      = ''/srv/assets/sub/dir/file.bin''"
    by (simp add: NewLocalStorage_def path_defs)
  have oa: "Open ?fa (Join (basePath (NewLocalStorage ''/srv/assets'')) ''sub/dir/file.bin'')
      = Inr (''BYTES'', None)"
    unfolding ja by (simp add: small_fs_def)
  have rr: "resolvable ?fr (basePath (NewLocalStorage ''./assets''))"
    by (simp add: resolvable_def NewLocalStorage_def IsAbs_def HasPrefix_def small_fs_def)
  have jr: "Join (basePath (NewLocalStorage ''./assets'')) ''sub/dir/file.bin''
      = ''assets/sub/dir/file.bin''"
    by (simp add: NewLocalStorage_def path_defs)
  have or: "Open ?fr (Join (basePath (NewLocalStorage ''./assets'')) ''sub/dir/file.bin'')
      = Inr (''BYTES'', None)"
    unfolding jr by (simp add: small_fs_def)
  show ?thesis
    using ra oa rr or round_trip [OF ra oa] round_trip [OF rr or]
    by (simp add: ja jr)
qed

text \<open>
  The first assumption is needed for a relative root: when \<open>os.Getwd\<close> fails,
  \<open>Get\<close> gives up before it opens anything, also when the file could be opened.
\<close>

lemma Get_needs_working_directory:
  "Open (lost_wd_fs ''assets/sub/dir/file.bin'' ''BYTES'') ''assets/sub/dir/file.bin''
     = Inr (''BYTES'', None)
   \<and> Get (lost_wd_fs ''assets/sub/dir/file.bin'' ''BYTES'') (NewLocalStorage ''./assets'')
       ''sub/dir/file.bin'' = rejected (ResolveBaseFailed eacces)"
  by (simp add: lost_wd_fs_def path_defs storage_defs small_fs_def)


section \<open>Staying inside the root\<close>

lemma lies_under_sibling:
  "\<not> lies_under ''/data/assets-evil/file'' ''/data/assets''"
  by (simp add: lies_under_def segments_def)

lemma Abs_data_assets: "Abs fs ''/data/assets'' = Inr ''/data/assets''"
  by (simp add: path_defs)

text \<open>
  When the base path itself is \<open>/data/assets\<close>, the first screen (the search for
  \<open>..\<close>) already rejects every request whose candidate is \<open>/data/assets-evil/file\<close>,
  and whatever is opened or looked up lies under the base by segments. The prefix test of
  lines 46 to 48 and 81 to 83 has no part in this.
\<close>

lemma sibling_directory_rejected:
  "(Abs fs (Join ''/data/assets'' (Clean path)) = Inr ''/data/assets-evil/file'' \<longrightarrow>
      Get fs (NewLocalStorage ''/data/assets'') path = rejected InvalidPathTraversal
      \<and> InvalidPath InvalidPathTraversal
      \<and> Exists fs (NewLocalStorage ''/data/assets'') path
          = \<lparr>ex_found = False, ex_statted = []\<rparr>)
   \<and> (\<forall>full. res_opened (Get fs (NewLocalStorage ''/data/assets'') path) = [full]
             \<or> ex_statted (Exists fs (NewLocalStorage ''/data/assets'') path) = [full] \<longrightarrow>
         (\<exists>absPath. Abs fs full = Inr absPath \<and> lies_under absPath ''/data/assets''))"
proof (intro conjI impI allI)
  let ?s = "NewLocalStorage ''/data/assets''"
  have res: "resolvable fs ''/data/assets''"
    by (simp add: resolvable_def IsAbs_def HasPrefix_def)
  have under: "\<exists>absPath. Abs fs (Join ''/data/assets'' (Clean path)) = Inr absPath
                 \<and> lies_under absPath ''/data/assets''"
    if "\<not> Contains (Clean path) ''..''"
    using checks_pass [OF res that] Abs_data_assets [of fs] by auto
  {
    assume cand: "Abs fs (Join ''/data/assets'' (Clean path)) = Inr ''/data/assets-evil/file''"
    have c: "Contains (Clean path) ''..''"
    proof (rule ccontr)
      assume "\<not> Contains (Clean path) ''..''"
      from under [OF this] cand show False
        using lies_under_sibling by simp
    qed
    show "Get fs ?s path = rejected InvalidPathTraversal"
      using c by (simp add: Get_def)
    show "InvalidPath InvalidPathTraversal" by simp
    show "Exists fs ?s path = \<lparr>ex_found = False, ex_statted = []\<rparr>"
      using c by (simp add: Exists_def)
  }
  fix full
  assume "res_opened (Get fs ?s path) = [full] \<or> ex_statted (Exists fs ?s path) = [full]"
  then have op: "res_opened (Get fs ?s path) = [full]"
    by (simp add: Exists_statted_Get_opened)
  then have c: "\<not> Contains (Clean path) ''..''"
    by (auto simp add: Get_def rejected_def)
  have "full = Join ''/data/assets'' (Clean path)"
    using op Get_opened_cases [of fs ?s path] by (auto simp add: NewLocalStorage_def)
  then show "\<exists>absPath. Abs fs full = Inr absPath \<and> lies_under absPath ''/data/assets''"
    using under [OF c] by simp
qed

lemma sibling_directory_rejected_example:
  "Abs (small_fs ''/app'' ''/data/assets-evil/file'' ''secret'' [])
      (Join ''/data/assets'' (Clean ''../assets-evil/file'')) = Inr ''/data/assets-evil/file''
   \<and> Get (small_fs ''/app'' ''/data/assets-evil/file'' ''secret'' [])
      (NewLocalStorage ''/data/assets'') ''../assets-evil/file'' = rejected InvalidPathTraversal
   \<and> \<not> ex_found (Exists (small_fs ''/app'' ''/data/assets-evil/file'' ''secret'' [])
      (NewLocalStorage ''/data/assets'') ''../assets-evil/file'')
   \<and> res_opened (Get (small_fs ''/app'' ''/data/assets-evil/file'' ''secret'' [])
      (NewLocalStorage ''/data/assets'') ''img/a.png'') = [''/data/assets/img/a.png'']
   \<and> Abs (small_fs ''/app'' ''/data/assets-evil/file'' ''secret'' []) ''/data/assets/img/a.png''
      = Inr ''/data/assets/img/a.png''
   \<and> lies_under ''/data/assets/img/a.png'' ''/data/assets''"
proof -
  let ?fs = "small_fs ''/app'' ''/data/assets-evil/file'' ''secret'' []"
  have a: "Abs ?fs (Join ''/data/assets'' (Clean ''../assets-evil/file''))
      = Inr ''/data/assets-evil/file''"
    by (simp add: path_defs)
  have o: "res_opened (Get ?fs (NewLocalStorage ''/data/assets'') ''img/a.png'')
      = [''/data/assets/img/a.png'']"
    by (simp add: path_defs storage_defs example_defs)
  have b: "Abs ?fs ''/data/assets/img/a.png'' = Inr ''/data/assets/img/a.png''"
    by (simp add: path_defs)
  have "\<exists>absPath. Abs ?fs ''/data/assets/img/a.png'' = Inr absPath
          \<and> lies_under absPath ''/data/assets''"
    using o sibling_directory_rejected [of ?fs "''img/a.png''"] by blast
  then have l: "lies_under ''/data/assets/img/a.png'' ''/data/assets''"
    using b by simp
  show ?thesis
    using a o b l sibling_directory_rejected [of ?fs "''../assets-evil/file''"]
    by simp
qed

text \<open>
  C1, at the input where the code departs from it. The storage is built on the empty base
  path, the working directory is \<open>/data/assets\<close>, the request path is
  \<open>/data/assets-evil/file\<close>. The absolute form of the base is \<open>/data/assets\<close>, the
  candidate is \<open>/data/assets-evil/file\<close>, which does not lie under it; the byte-wise
  \<open>HasPrefix\<close> test passes all the same, and \<open>Get\<close> opens the file and returns its
  bytes with no error.
\<close>

theorem empty_base_escapes:
  "Abs (small_fs ''/data/assets'' ''/data/assets-evil/file'' ''secret'' []) [] = Inr ''/data/assets''
   \<and> Abs (small_fs ''/data/assets'' ''/data/assets-evil/file'' ''secret'' [])
        (Join [] (Clean ''/data/assets-evil/file'')) = Inr ''/data/assets-evil/file''
   \<and> \<not> lies_under ''/data/assets-evil/file'' ''/data/assets''
   \<and> HasPrefix ''/data/assets-evil/file'' ''/data/assets''
   \<and> Get (small_fs ''/data/assets'' ''/data/assets-evil/file'' ''secret'' [])
        (NewLocalStorage []) ''/data/assets-evil/file''
      = \<lparr>res_data = Some ''secret'', res_err = None,
         res_opened = [''/data/assets-evil/file'']\<rparr>"
proof -
  let ?fs = "small_fs ''/data/assets'' ''/data/assets-evil/file'' ''secret'' []"
  have c: "Clean ''/data/assets-evil/file'' = ''/data/assets-evil/file''"
    by (simp add: path_defs)
  have j: "Join [] ''/data/assets-evil/file'' = ''/data/assets-evil/file''"
    by (simp add: Join_def c)
  have b: "Abs ?fs [] = Inr ''/data/assets''"
    by (simp add: path_defs small_fs_def)
  have a: "Abs ?fs ''/data/assets-evil/file'' = Inr ''/data/assets-evil/file''"
    by (simp add: Abs_def IsAbs_def HasPrefix_def c)
  have h: "HasPrefix ''/data/assets-evil/file'' ''/data/assets''"
    by (simp add: HasPrefix_def)
  have g: "Get ?fs (NewLocalStorage []) ''/data/assets-evil/file''
      = \<lparr>res_data = Some ''secret'', res_err = None,
         res_opened = [''/data/assets-evil/file'']\<rparr>"
    by (simp add: path_defs storage_defs example_defs)
  show ?thesis
    using b a h g lies_under_sibling by (simp add: c j)
qed

text \<open>
  The containment test of both functions is the byte-wise prefix test and nothing else:
  once the first screen is passed and both absolute forms exist, the path is turned away
  as outside the base exactly when \<open>HasPrefix\<close> fails.
\<close>

lemma containment_test_is_HasPrefix:
  assumes "\<not> Contains (Clean path) ''..''"
    and "Abs fs (basePath s) = Inr absBase"
    and "Abs fs (Join (basePath s) (Clean path)) = Inr absPath"
  shows "Get fs s path = rejected InvalidPathOutside \<longleftrightarrow> \<not> HasPrefix absPath absBase"
    and "res_opened (Get fs s path) = [Join (basePath s) (Clean path)]
           \<longleftrightarrow> HasPrefix absPath absBase"
    and "ex_statted (Exists fs s path) = [Join (basePath s) (Clean path)]
           \<longleftrightarrow> HasPrefix absPath absBase"
  using assms
  by (auto simp add: Get_def Exists_def rejected_def Let_def split: sum.splits prod.splits)

text \<open>
  C2, at the input where the code departs from it. The storage is built on the empty base
  path in the working directory \<open>/data/assets\<close>, so the absolute form of the root is
  \<open>/data/assets\<close>; the request path is \<open>/data/assets-evil/file\<close>, and so is the
  candidate. The candidate is in a sibling directory that shares the root's leading bytes:
  it does not lie under the root by segments. The prefix test accepts it: \<open>Get\<close> returns
  the file's bytes and no error, and \<open>Exists\<close> looks the file up and returns true.
\<close>

theorem sibling_prefix_accepted:
  "Abs (small_fs ''/data/assets'' ''/data/assets-evil/file'' ''secret'' [])
      (basePath (NewLocalStorage [])) = Inr ''/data/assets''
   \<and> Abs (small_fs ''/data/assets'' ''/data/assets-evil/file'' ''secret'' [])
        (Join (basePath (NewLocalStorage [])) (Clean ''/data/assets-evil/file''))
       = Inr ''/data/assets-evil/file''
   \<and> \<not> Contains (Clean ''/data/assets-evil/file'') ''..''
   \<and> segments ''/data/assets'' = [''data'', ''assets'']
   \<and> segments ''/data/assets-evil/file'' = [''data'', ''assets-evil'', ''file'']
   \<and> \<not> lies_under ''/data/assets-evil/file'' ''/data/assets''
   \<and> res_err (Get (small_fs ''/data/assets'' ''/data/assets-evil/file'' ''secret'' [])
        (NewLocalStorage []) ''/data/assets-evil/file'') = None
   \<and> res_data (Get (small_fs ''/data/assets'' ''/data/assets-evil/file'' ''secret'' [])
        (NewLocalStorage []) ''/data/assets-evil/file'') = Some ''secret''
   \<and> Exists (small_fs ''/data/assets'' ''/data/assets-evil/file'' ''secret'' [])
        (NewLocalStorage []) ''/data/assets-evil/file''
       = \<lparr>ex_found = True, ex_statted = [''/data/assets-evil/file'']\<rparr>"
proof -
  let ?fs = "small_fs ''/data/assets'' ''/data/assets-evil/file'' ''secret'' []"
  have c: "Clean ''/data/assets-evil/file'' = ''/data/assets-evil/file''"
    by (simp add: path_defs)
  have n: "\<not> Contains ''/data/assets-evil/file'' ''..''"
    by (simp add: HasPrefix_def)
  have b: "Abs ?fs (basePath (NewLocalStorage [])) = Inr ''/data/assets''"
    by (simp add: path_defs small_fs_def NewLocalStorage_def)
  have a: "Abs ?fs (Join (basePath (NewLocalStorage [])) ''/data/assets-evil/file'')
      = Inr ''/data/assets-evil/file''"
    by (simp add: path_defs NewLocalStorage_def)
  have s1: "segments ''/data/assets'' = [''data'', ''assets'']"
    and s2: "segments ''/data/assets-evil/file'' = [''data'', ''assets-evil'', ''file'']"
    by (simp_all add: segments_def)
  have l: "\<not> lies_under ''/data/assets-evil/file'' ''/data/assets''"
    by (simp add: lies_under_def s1 s2)
  have g: "Get ?fs (NewLocalStorage []) ''/data/assets-evil/file''
      = \<lparr>res_data = Some ''secret'', res_err = None,
         res_opened = [''/data/assets-evil/file'']\<rparr>"
    by (simp add: path_defs storage_defs example_defs)
  have e: "Exists ?fs (NewLocalStorage []) ''/data/assets-evil/file''
      = \<lparr>ex_found = True, ex_statted = [''/data/assets-evil/file'']\<rparr>"
    by (simp add: path_defs storage_defs example_defs)
  show ?thesis
    using n b a s1 s2 l e by (simp add: c g)
qed

end
